theory Spec2Isabelle
  imports Main "HOL-Library.Multiset" "HOL-Library.Sublist" "HOL-Library.Product_Lexorder"
begin

section \<open>Data model\<close>

text \<open>
  The declarations of \<^verbatim>\<open>types.ts\<close> are read off their uses. An analysis result has the
  six fields that \<^verbatim>\<open>analyzeEmailBatch\<close> stores per message; the two enumerations are the
  ones listed in its response schema.
\<close>

datatype Priority = HIGH | MEDIUM | LOW

datatype Category = WORK | PERSONAL | NEWSLETTER | FINANCE | SPAM_LIKELY

record AIAnalysis =
  summary :: string
  priority :: Priority
  urgencyScore :: int
  category :: Category
  actionItems :: "string list"
  sentiment :: string

text \<open>
  What the field \<^verbatim>\<open>analysis\<close> of a message can hold. The type says an analysis object;
  \<^verbatim>\<open>handleRunAI\<close> stores whatever truthy value the property read \<^verbatim>\<open>results[email.id]\<close>
  gives, and on a plain object that read also finds what the object inherits: a function
  member of \<^verbatim>\<open>Object.prototype\<close>, \<^verbatim>\<open>Object.prototype\<close> itself, or a field of an analysis
  object that has become the prototype. All of these values are truthy.
\<close>

datatype analysis_value =
    Analysis AIAnalysis
  | Member string
  | Prototype
  | FieldOf AIAnalysis string

text \<open>
  \<^verbatim>\<open>BackendMessage\<close> (gmailBackend.ts): every field but the identifier is optional.
  JavaScript strings are modelled as HOL strings, a character standing for a code unit
  below 256.
\<close>

record BackendMessage =
  msg_id :: string
  msg_threadId :: "string option"
  msg_snippet :: "string option"
  msg_subject :: "string option"
  msg_from :: "string option"
  msg_date :: "string option"
  msg_body :: "string option"

text \<open>
  \<^verbatim>\<open>Omit<Email, 'analysis'>\<close> is the record \<open>raw_email\<close>; \<^verbatim>\<open>Email\<close> extends it by the
  optional field \<open>analysis\<close>. The field \<^verbatim>\<open>id\<close> is written \<open>id'\<close>. \<open>threadId\<close> is optional:
  the normalizer copies a possibly absent value and the thread view reads
  \<^verbatim>\<open>e.threadId || e.id\<close>.
\<close>

record raw_email =
  id' :: string
  threadId :: "string option"
  sender :: string
  senderName :: string
  subject :: string
  snippet :: string
  body :: string
  receivedAt :: string
  read :: bool

record email = raw_email +
  analysis :: "analysis_value option"

text \<open>The object spread \<^verbatim>\<open>{ ...raw, analysis: a }\<close>; \<^verbatim>\<open>{ ...raw }\<close> is the case \<open>a = None\<close>.\<close>

definition spread_analysis :: "raw_email \<Rightarrow> analysis_value option \<Rightarrow> email" where
  "spread_analysis raw a = raw_email.extend raw (email.fields a)"

section \<open>Message normalizer (gmailBackend.ts)\<close>

text \<open>\<^verbatim>\<open>v || d\<close> for an optional string: an absent and an empty string are both falsy.\<close>

definition or_else :: "string option \<Rightarrow> string \<Rightarrow> string" where
  "or_else v d = (case v of None \<Rightarrow> d | Some s \<Rightarrow> if s = [] then d else s)"

text \<open>
  The characters that \<^verbatim>\<open>.\<close> does not match (line terminators) and the ones that
  \<^verbatim>\<open>trim()\<close> removes (white space and line terminators), as far as they lie below 256.
\<close>

definition is_line_terminator :: "char \<Rightarrow> bool" where
  "is_line_terminator c = (c = CHR 0x0A \<or> c = CHR 0x0D)"

definition is_js_space :: "char \<Rightarrow> bool" where
  "is_js_space c = (c = CHR 0x09 \<or> c = CHR 0x0A \<or> c = CHR 0x0B \<or> c = CHR 0x0C \<or>
     c = CHR 0x0D \<or> c = CHR 0x20 \<or> c = CHR 0xA0)"

definition trim :: "string \<Rightarrow> string" where
  "trim s = rev (dropWhile is_js_space (rev (dropWhile is_js_space s)))"

text \<open>\<^verbatim>\<open>replace(/"/g, '')\<close>: every double quote is removed.\<close>

definition strip_quotes :: "string \<Rightarrow> string" where
  "strip_quotes s = filter (\<lambda>c. c \<noteq> CHR 0x22) s"

text \<open>
  The backtracking of a greedy quantifier: \<open>backtrack n k\<close> tries the continuation \<open>k\<close> on
  the lengths \<open>n\<close>, \<open>n - 1\<close>, ..., \<open>0\<close> and returns the first success.
\<close>

fun backtrack :: "nat \<Rightarrow> (nat \<Rightarrow> 'a option) \<Rightarrow> 'a option" where
  "backtrack 0 k = k 0"
| "backtrack (Suc n) k = (case k (Suc n) of Some r \<Rightarrow> Some r | None \<Rightarrow> backtrack n k)"

text \<open>The longest prefix that \<^verbatim>\<open>.*\<close> can consume.\<close>

definition dot_run :: "string \<Rightarrow> string" where
  "dot_run s = takeWhile (\<lambda>c. \<not> is_line_terminator c) s"

text \<open>
  \<^verbatim>\<open>/(.*)<(.*)>/\<close> tried at the start of \<open>s\<close>: the first group takes the longest run it
  can and gives characters back until a \<^verbatim>\<open><\<close> follows and the rest of the pattern
  matches; the second group does the same before \<^verbatim>\<open>>\<close>. The result is the pair of
  captures.
\<close>

definition match_group2 :: "string \<Rightarrow> string option" where
  "match_group2 r = backtrack (length (dot_run r))
     (\<lambda>m. case drop m r of [] \<Rightarrow> None
         | c # _ \<Rightarrow> if c = CHR ''>'' then Some (take m r) else None)"

definition match_at :: "string \<Rightarrow> (string \<times> string) option" where
  "match_at s = backtrack (length (dot_run s))
     (\<lambda>n. case drop n s of [] \<Rightarrow> None
         | c # r \<Rightarrow> if c = CHR ''<'' then
                     (case match_group2 r of None \<Rightarrow> None
                      | Some g2 \<Rightarrow> Some (take n s, g2))
                   else None)"

text \<open>\<^verbatim>\<open>msg.from.match(...)\<close>: the pattern is not anchored, so every start is tried in turn.\<close>

fun from_match :: "string \<Rightarrow> (string \<times> string) option" where
  "from_match [] = match_at []"
| "from_match (c # cs) =
     (case match_at (c # cs) of Some r \<Rightarrow> Some r | None \<Rightarrow> from_match cs)"

text \<open>
  \<open>parse_sender\<close> is the first half of \<^verbatim>\<open>mapBackendMessageToEmail\<close> and returns
  \<open>(senderName, senderEmail)\<close>. \<^verbatim>\<open>if (msg.from)\<close> is false for an absent and for an
  empty header.
\<close>

definition parse_sender :: "string option \<Rightarrow> string \<times> string" where
  "parse_sender f =
     (case f of
        None \<Rightarrow> (''Unknown'', ''unknown@example.com'')
      | Some s \<Rightarrow>
          if s = [] then (''Unknown'', ''unknown@example.com'')
          else (case from_match s of
                  Some (g1, g2) \<Rightarrow> (strip_quotes (trim g1), trim g2)
                | None \<Rightarrow> (s, s)))"

text \<open>
  The parameter \<open>now\<close> is the value of \<^verbatim>\<open>new Date().toISOString()\<close> at the call.
\<close>

definition mapBackendMessageToEmail :: "string \<Rightarrow> BackendMessage \<Rightarrow> raw_email" where
  "mapBackendMessageToEmail now msg =
     \<lparr> id' = msg_id msg,
       threadId = msg_threadId msg,
       sender = snd (parse_sender (msg_from msg)),
       senderName = fst (parse_sender (msg_from msg)),
       subject = or_else (msg_subject msg) ''(No Subject)'',
       snippet = or_else (msg_snippet msg) [],
       body = or_else (msg_body msg) (or_else (msg_snippet msg) []),
       receivedAt = or_else (msg_date msg) now,
       read = False \<rparr>"

section \<open>Merge reconciler (App.tsx, mergeEmails)\<close>

text \<open>
  \<^verbatim>\<open>new Map(emails.map(e => [e.id, e]))\<close>: the entries are set in list order, a later entry
  replacing an earlier one with the same key.
\<close>

definition currentMap :: "email list \<Rightarrow> (string \<rightharpoonup> email)" where
  "currentMap emails = foldl (\<lambda>m e. m(id' e \<mapsto> e)) Map.empty emails"

text \<open>
  \<^verbatim>\<open>existing?.analysis\<close> is truthy when the record exists and carries an analysis object.
\<close>

definition mergeEmails :: "email list \<Rightarrow> raw_email list \<Rightarrow> email list" where
  "mergeEmails emails newRawEmails =
     map (\<lambda>raw.
            case currentMap emails (id' raw) of
              None \<Rightarrow> spread_analysis raw None
            | Some existing \<Rightarrow>
                (case analysis existing of
                   Some a \<Rightarrow> spread_analysis raw (Some a)
                 | None \<Rightarrow> spread_analysis raw None))
         newRawEmails"

section \<open>Thread assembler (App.tsx, threads)\<close>

text \<open>The grouping key \<^verbatim>\<open>e.threadId || e.id\<close>.\<close>

definition tid :: "'a raw_email_scheme \<Rightarrow> string" where
  "tid e = or_else (threadId e) (id' e)"

text \<open>
  The \<^verbatim>\<open>Map\<close> of groups keeps its keys in the order of their first insertion, so it is an
  association list. \<open>push_group\<close> is one round of the \<^verbatim>\<open>forEach\<close>: a missing key gets a new
  group at the end, and the message is pushed onto the group of its key.
\<close>

fun push_group :: "string \<Rightarrow> email \<Rightarrow> (string \<times> email list) list \<Rightarrow> (string \<times> email list) list" where
  "push_group k e [] = [(k, [e])]"
| "push_group k e ((k', g) # gs) =
     (if k' = k then (k', g @ [e]) # gs else (k', g) # push_group k e gs)"

definition groups :: "email list \<Rightarrow> (string \<times> email list) list" where
  "groups emails = foldl (\<lambda>gs e. push_group (tid e) e gs) [] emails"

text \<open>
  \<^verbatim>\<open>Array.prototype.sort(comparefn)\<close>. A comparator returns a number, \<open>None\<close> standing for
  \<^verbatim>\<open>NaN\<close>, which the sort reads as \<open>0\<close>. With a comparator that is a consistent ordering
  of the elements the language fixes the result: the stable sort. With any other
  comparator the order is the engine's; the model follows V8 (\<^verbatim>\<open>array-sort.tq\<close>), which for
  an array of fewer than 64 elements takes the longest run at the start (non-descending,
  or strictly descending and then reversed) and inserts each further element by binary
  search. V8 cuts a longer array into such runs and merges them; the model keeps to the
  one run, which gives the same list whenever the comparator is consistent.
\<close>

definition sort_compare :: "('a \<Rightarrow> 'a \<Rightarrow> int option) \<Rightarrow> 'a \<Rightarrow> 'a \<Rightarrow> int" where
  "sort_compare comparefn x y = (case comparefn x y of None \<Rightarrow> 0 | Some v \<Rightarrow> v)"

text \<open>
  \<open>run_more\<close> counts the elements that continue the run after \<open>previousElement\<close>;
  \<open>CountAndMakeRun\<close> returns the run, made ascending, and the elements after it.
\<close>

fun run_more :: "('a \<Rightarrow> 'a \<Rightarrow> int option) \<Rightarrow> bool \<Rightarrow> 'a \<Rightarrow> 'a list \<Rightarrow> nat" where
  "run_more comparefn isDescending previousElement [] = 0"
| "run_more comparefn isDescending previousElement (currentElement # rest) =
     (if (if isDescending then sort_compare comparefn currentElement previousElement \<ge> 0
          else sort_compare comparefn currentElement previousElement < 0)
      then 0
      else Suc (run_more comparefn isDescending currentElement rest))"

definition CountAndMakeRun :: "('a \<Rightarrow> 'a \<Rightarrow> int option) \<Rightarrow> 'a list \<Rightarrow> 'a list \<times> 'a list" where
  "CountAndMakeRun comparefn workArray =
     (case workArray of
        [] \<Rightarrow> ([], [])
      | [x] \<Rightarrow> ([x], [])
      | elementHigh # elementLow # rest \<Rightarrow>
          (let isDescending = (sort_compare comparefn elementLow elementHigh < 0);
               runLength = 2 + run_more comparefn isDescending elementLow rest
           in (if isDescending then rev (take runLength workArray) else take runLength workArray,
               drop runLength workArray)))"

text \<open>
  The binary search of \<^verbatim>\<open>BinaryInsertionSort\<close> for the place of \<open>pivot\<close> in the sorted part
  \<open>workArray\<close>, between \<open>left\<close> and \<open>right\<close>; \<open>insert_pivot\<close> puts the pivot there.
\<close>

function find_insertion_point ::
  "('a \<Rightarrow> 'a \<Rightarrow> int option) \<Rightarrow> 'a \<Rightarrow> 'a list \<Rightarrow> nat \<Rightarrow> nat \<Rightarrow> nat" where
  "find_insertion_point comparefn pivot workArray left right =
     (if left < right then
        (if sort_compare comparefn pivot (workArray ! (left + (right - left) div 2)) < 0
         then find_insertion_point comparefn pivot workArray left (left + (right - left) div 2)
         else find_insertion_point comparefn pivot workArray (left + (right - left) div 2 + 1) right)
      else left)"
  by pat_completeness auto
termination
  by (relation "measure (\<lambda>(c, p, w, l, r). r - l)") auto

declare find_insertion_point.simps [simp del]

definition insert_pivot :: "('a \<Rightarrow> 'a \<Rightarrow> int option) \<Rightarrow> 'a list \<Rightarrow> 'a \<Rightarrow> 'a list" where
  "insert_pivot comparefn workArray pivot =
     (let left = find_insertion_point comparefn pivot workArray 0 (length workArray)
      in take left workArray @ pivot # drop left workArray)"

definition BinaryInsertionSort :: "('a \<Rightarrow> 'a \<Rightarrow> int option) \<Rightarrow> 'a list \<Rightarrow> 'a list \<Rightarrow> 'a list" where
  "BinaryInsertionSort comparefn run rest = foldl (insert_pivot comparefn) run rest"

definition js_sort :: "('a \<Rightarrow> 'a \<Rightarrow> int option) \<Rightarrow> 'a list \<Rightarrow> 'a list" where
  "js_sort comparefn workArray =
     (case CountAndMakeRun comparefn workArray of
        (run, rest) \<Rightarrow> BinaryInsertionSort comparefn run rest)"

text \<open>
  The parameter \<open>getTime\<close> is \<^verbatim>\<open>new Date(s).getTime()\<close>: the milliseconds of a date string,
  or \<open>None\<close> (\<^verbatim>\<open>NaN\<close>) for a string that is no date. \<open>time_diff a b\<close> is the comparator
  of the inner sort; a difference with \<^verbatim>\<open>NaN\<close> is \<^verbatim>\<open>NaN\<close>.
\<close>

definition time_diff :: "(string \<Rightarrow> int option) \<Rightarrow> email \<Rightarrow> email \<Rightarrow> int option" where
  "time_diff getTime a b =
     (case getTime (receivedAt a) of None \<Rightarrow> None
      | Some x \<Rightarrow> (case getTime (receivedAt b) of None \<Rightarrow> None | Some y \<Rightarrow> Some (x - y)))"

text \<open>
  \<^verbatim>\<open>latest.analysis?.urgencyScore || 0\<close>; a value that is no analysis object has no
  \<^verbatim>\<open>urgencyScore\<close>.
\<close>

definition score :: "email \<Rightarrow> int" where
  "score e = (case analysis e of Some (Analysis a) \<Rightarrow> urgencyScore a | _ \<Rightarrow> 0)"

text \<open>
  The comparator of the outer sort. It reads the last message of each thread; every group
  holds at least one message (lemma \<open>threads_mem\<close>), so \<^verbatim>\<open>a[a.length - 1]\<close> is defined.
\<close>

definition thread_compare :: "(string \<Rightarrow> int option) \<Rightarrow> email list \<Rightarrow> email list \<Rightarrow> int option" where
  "thread_compare getTime a b =
     (let latestA = last a; latestB = last b;
          scoreA = score latestA; scoreB = score latestB
      in if scoreA \<noteq> scoreB then Some (scoreB - scoreA)
         else time_diff getTime latestB latestA)"

definition threads :: "(string \<Rightarrow> int option) \<Rightarrow> email list \<Rightarrow> email list list" where
  "threads getTime emails =
     js_sort (thread_compare getTime)
       (map (\<lambda>thread. js_sort (time_diff getTime) thread) (map snd (groups emails)))"

section \<open>Analysis client (geminiService.ts)\<close>

text \<open>
  A thrown value: whether it is an \<^verbatim>\<open>Error\<close> object, its \<^verbatim>\<open>message\<close>, and its \<^verbatim>\<open>error\<close>
  property when it has one, of which the handler reads \<^verbatim>\<open>code\<close> and \<^verbatim>\<open>message\<close>.
  \<^verbatim>\<open>new Error(m)\<close> has no \<^verbatim>\<open>error\<close> property.
\<close>

record api_error =
  code :: "int option"
  message :: "string option"

datatype thrown = Thrown (is_Error: bool) (thrown_message: string) (thrown_error: "api_error option")

definition new_Error :: "string \<Rightarrow> thrown" where
  "new_Error m = Thrown True m None"

text \<open>\<^verbatim>\<open>try { block } catch (e) { handler }\<close> on results: \<open>Inl\<close> is a thrown value.\<close>

definition try_catch :: "thrown + 'a \<Rightarrow> (thrown \<Rightarrow> thrown + 'a) \<Rightarrow> thrown + 'a" where
  "try_catch block handler = (case block of Inl e \<Rightarrow> handler e | Inr v \<Rightarrow> Inr v)"

datatype GoogleGenAI = GoogleGenAI (apiKey: string)

text \<open>
  What a request carries: for the batch, the stub of every message (the \<^verbatim>\<open>body\<close> with tags
  replaced and cut to 8000 characters); for a reply, sender name, subject and clean body.
\<close>

record email_stub =
  stub_id :: string
  stub_sender :: string
  stub_subject :: string
  stub_body :: string

datatype request =
    AnalyzeRequest "email_stub list"
  | ReplyRequest string string string

text \<open>
  \<^verbatim>\<open>replace(/<[^>]*>?/gm, ' ')\<close>: from each \<^verbatim>\<open><\<close> up to and including the next \<^verbatim>\<open>>\<close> (or
  up to the end of the string) the text becomes one space. The flag says whether the
  scan is inside such a tag.
\<close>

fun strip_tags :: "bool \<Rightarrow> string \<Rightarrow> string" where
  "strip_tags in_tag [] = []"
| "strip_tags False (c # cs) =
     (if c = CHR ''<'' then CHR '' '' # strip_tags True cs else c # strip_tags False cs)"
| "strip_tags True (c # cs) =
     (if c = CHR ''>'' then strip_tags False cs else strip_tags True cs)"

definition config_message :: string where
  "config_message = ''Gemini API key is not configured. Please set API_KEY or GEMINI_API_KEY in your .env.local file. Get your key from: https://aistudio.google.com/app/apikey''"

definition leaked_message :: string where
  "leaked_message = ''Your API key has been reported as leaked. Please generate a NEW API key from https://aistudio.google.com/app/apikey and update your .env.local file.''"

definition invalid_message :: string where
  "invalid_message = ''Invalid API key. Please check your API_KEY in .env.local file. Get a new key from: https://aistudio.google.com/app/apikey''"

text \<open>
  \<open>getAI\<close> takes \<^verbatim>\<open>process.env.API_KEY\<close> and the module variable \<^verbatim>\<open>aiInstance\<close>, and returns
  the new value of the variable with the client or the thrown error.
\<close>

definition getAI :: "string option \<Rightarrow> GoogleGenAI option \<Rightarrow> GoogleGenAI option \<times> (thrown + GoogleGenAI)" where
  "getAI API_KEY aiInstance =
     (case aiInstance of
        Some ai \<Rightarrow> (aiInstance, Inr ai)
      | None \<Rightarrow>
          (case API_KEY of
             None \<Rightarrow> (None, Inl (new_Error config_message))
           | Some k \<Rightarrow>
               if k = [] then (None, Inl (new_Error config_message))
               else (Some (GoogleGenAI k), Inr (GoogleGenAI k))))"

text \<open>\<^verbatim>\<open>m?.includes(pat)\<close>, falsy when \<open>m\<close> is absent.\<close>

definition js_includes :: "string option \<Rightarrow> string \<Rightarrow> bool" where
  "js_includes m pat = (case m of None \<Rightarrow> False | Some s \<Rightarrow> sublist pat s)"

text \<open>The \<^verbatim>\<open>catch\<close> block of \<^verbatim>\<open>analyzeEmailBatch\<close>: the value it throws for a caught one.\<close>

definition rethrow :: "thrown \<Rightarrow> thrown" where
  "rethrow error =
     (case thrown_error error of
        None \<Rightarrow> error
      | Some e \<Rightarrow>
          if code e = Some 403 \<or> js_includes (message e) ''leaked'' then new_Error leaked_message
          else if code e = Some 401 \<or> js_includes (message e) ''API key'' then new_Error invalid_message
          else (case message e of
                  None \<Rightarrow> error
                | Some m \<Rightarrow> if m = [] then error else new_Error (''API Error: '' @ m)))"

text \<open>
  \<^verbatim>\<open>resultMap\<close> is a plain object, \<^verbatim>\<open>{}\<close>: its own properties, and its prototype, which is
  \<^verbatim>\<open>Object.prototype\<close> (\<open>None\<close>) until an assignment to \<^verbatim>\<open>__proto__\<close> replaces it by the
  assigned analysis object.
\<close>

record result_object =
  own :: "string \<rightharpoonup> AIAnalysis"
  proto :: "AIAnalysis option"

text \<open>
  \<^verbatim>\<open>resultMap[item.id] = { ... }\<close>: the key \<^verbatim>\<open>__proto__\<close> runs the setter that
  \<^verbatim>\<open>Object.prototype\<close> provides, every other key creates or replaces an own property.
  \<open>result_map\<close> is the \<^verbatim>\<open>forEach\<close> over the parsed items.
\<close>

definition assign :: "result_object \<Rightarrow> string \<times> AIAnalysis \<Rightarrow> result_object" where
  "assign resultMap item =
     (if fst item = ''__proto__'' then resultMap\<lparr>proto := Some (snd item)\<rparr>
      else resultMap\<lparr>own := (own resultMap)(fst item \<mapsto> snd item)\<rparr>)"

definition result_map :: "(string \<times> AIAnalysis) list \<Rightarrow> result_object" where
  "result_map parsedData = foldl assign \<lparr> own = Map.empty, proto = None \<rparr> parsedData"

text \<open>
  The function members of \<^verbatim>\<open>Object.prototype\<close>, and whether the field \<open>k\<close> of an analysis
  object holds a truthy value (a non-empty string, a number other than 0, an array).
\<close>

definition object_prototype_functions :: "string list" where
  "object_prototype_functions =
     [''constructor'', ''__defineGetter__'', ''__defineSetter__'', ''hasOwnProperty'',
      ''__lookupGetter__'', ''__lookupSetter__'', ''isPrototypeOf'', ''propertyIsEnumerable'',
      ''toString'', ''valueOf'', ''toLocaleString'']"

definition field_truthy :: "AIAnalysis \<Rightarrow> string \<Rightarrow> bool" where
  "field_truthy a k =
     (k = ''summary'' \<and> summary a \<noteq> [] \<or> k = ''priority'' \<or>
      k = ''urgencyScore'' \<and> urgencyScore a \<noteq> 0 \<or> k = ''category'' \<or>
      k = ''actionItems'' \<or> k = ''sentiment'' \<and> sentiment a \<noteq> [])"

text \<open>
  The property read \<^verbatim>\<open>results[k]\<close> as far as \<^verbatim>\<open>results[k] || ...\<close> needs it: the value when it
  is truthy, \<open>None\<close> when it is \<^verbatim>\<open>undefined\<close> or falsy. An own property comes first, then the
  prototype chain; \<^verbatim>\<open>__proto__\<close> reads the prototype of the object.
\<close>

definition get_truthy :: "result_object \<Rightarrow> string \<Rightarrow> analysis_value option" where
  "get_truthy results k =
     (case own results k of
        Some a \<Rightarrow> Some (Analysis a)
      | None \<Rightarrow>
          (case proto results of
             Some p \<Rightarrow>
               if k = ''__proto__'' then Some (Analysis p)
               else if field_truthy p k then Some (FieldOf p k)
               else if k \<in> set object_prototype_functions then Some (Member k)
               else None
           | None \<Rightarrow>
               if k = ''__proto__'' then Some Prototype
               else if k \<in> set object_prototype_functions then Some (Member k)
               else None))"

text \<open>
  The environment of the client: the configured key, the remote call (which returns
  \<^verbatim>\<open>response.text\<close>, possibly absent, or throws) and \<^verbatim>\<open>JSON.parse\<close> on the text of a
  batch response, which gives the items with their identifiers in the order of the array,
  or the value thrown when the text is no such array.
\<close>

record service =
  API_KEY :: "string option"
  generateContent :: "GoogleGenAI \<Rightarrow> request \<Rightarrow> thrown + string option"
  JSON_parse :: "string \<Rightarrow> thrown + (string \<times> AIAnalysis) list"

text \<open>
  What one operation of the client leaves behind: the module variable, the requests it
  sent over the network, and its result or the value it threw.
\<close>

record 'a call =
  instance_after :: "GoogleGenAI option"
  requests_sent :: "request list"
  outcome :: "thrown + 'a"

definition analysis_prompt :: "'a raw_email_scheme list \<Rightarrow> request" where
  "analysis_prompt emails =
     AnalyzeRequest (map (\<lambda>e. \<lparr> stub_id = id' e, stub_sender = sender e,
                      stub_subject = subject e,
                      stub_body = take 8000 (strip_tags False (body e)) \<rparr>) emails)"

definition analyzeEmailBatch ::
  "service \<Rightarrow> GoogleGenAI option \<Rightarrow> 'a raw_email_scheme list \<Rightarrow> result_object call" where
  "analyzeEmailBatch svc aiInstance emails =
     (let prompt = analysis_prompt emails
      in case getAI (API_KEY svc) aiInstance of
           (inst, Inl error) \<Rightarrow>
             \<lparr> instance_after = inst, requests_sent = [],
               outcome = try_catch (Inl error) (\<lambda>error. Inl (rethrow error)) \<rparr>
         | (inst, Inr ai) \<Rightarrow>
             \<lparr> instance_after = inst, requests_sent = [prompt],
               outcome = try_catch
                 (case generateContent svc ai prompt of
                    Inl error \<Rightarrow> Inl error
                  | Inr None \<Rightarrow> Inl (new_Error ''No data returned from AI'')
                  | Inr (Some rawData) \<Rightarrow>
                      if rawData = [] then Inl (new_Error ''No data returned from AI'')
                      else (case JSON_parse svc rawData of
                              Inl error \<Rightarrow> Inl error
                            | Inr parsedData \<Rightarrow> Inr (result_map parsedData)))
                 (\<lambda>error. Inl (rethrow error)) \<rparr>)"

definition reply_prompt :: "email \<Rightarrow> request" where
  "reply_prompt email =
     (let cleanBody = strip_tags False (body email)
      in ReplyRequest (senderName email) (subject email) cleanBody)"

definition generateSmartReply :: "service \<Rightarrow> GoogleGenAI option \<Rightarrow> email \<Rightarrow> string call" where
  "generateSmartReply svc aiInstance email =
     (let prompt = reply_prompt email
      in case getAI (API_KEY svc) aiInstance of
           (inst, Inl e) \<Rightarrow>
             \<lparr> instance_after = inst, requests_sent = [],
               outcome = try_catch (Inl e)
                 (\<lambda>e. Inr ''Error generating reply. Please try again.'') \<rparr>
         | (inst, Inr ai) \<Rightarrow>
             \<lparr> instance_after = inst, requests_sent = [prompt],
               outcome = try_catch
                 (case generateContent svc ai prompt of
                    Inl e \<Rightarrow> Inl e
                  | Inr reply \<Rightarrow> Inr (or_else reply ''Could not generate reply.''))
                 (\<lambda>e. Inr ''Error generating reply. Please try again.'') \<rparr>)"

section \<open>Backend calls and the handlers of App.tsx\<close>






text \<open>
  The state of the application: the React state of \<^verbatim>\<open>AppContent\<close> that the handlers
  touch, the list last handed to \<^verbatim>\<open>db.saveEmails\<close>, the module variable of the client and
  the alerts shown. A handler is a function from the state before to the state after it has
  finished. \<open>mergeEmails\<close> reads \<^verbatim>\<open>emails\<close> from the state the handler closes over.
\<close>

datatype tab = inbox | dashboard

datatype alert = SecurityAlert string | ConfigAlert string | FailureAlert string

record app_state =
  emails :: "email list"
  stored :: "email list option"
  aiInstance :: "GoogleGenAI option"
  activeTab :: tab
  selectedThreadId :: "string option"
  isSyncing :: bool
  isAnalyzing :: bool
  alerts :: "alert list"



definition emailsToAnalyze :: "(string \<Rightarrow> int option) \<Rightarrow> email list \<Rightarrow> email list" where
  "emailsToAnalyze getTime es =
     (let latestEmailIds = set (map (\<lambda>t. id' (last t)) (threads getTime es))
      in filter (\<lambda>e. id' e \<in> latestEmailIds) es)"

definition updatedEmails :: "result_object \<Rightarrow> email list \<Rightarrow> email list" where
  "updatedEmails results es =
     map (\<lambda>email. email\<lparr>analysis :=
            (case get_truthy results (id' email) of
               Some v \<Rightarrow> Some v
             | None \<Rightarrow> analysis email)\<rparr>) es"

definition alert_for :: "thrown \<Rightarrow> alert" where
  "alert_for error =
     (let errorMessage = (if is_Error error then thrown_message error else ''Unknown error'')
      in if sublist ''leaked'' errorMessage then SecurityAlert errorMessage
         else if sublist ''API key'' errorMessage \<or> sublist ''not configured'' errorMessage \<or>
                 sublist ''Invalid'' errorMessage
           then ConfigAlert errorMessage
         else FailureAlert errorMessage)"

definition handleRunAI :: "(string \<Rightarrow> int option) \<Rightarrow> service \<Rightarrow> app_state \<Rightarrow> app_state" where
  "handleRunAI getTime svc st =
     (if emails st = [] then st
      else
        (let run = analyzeEmailBatch svc (aiInstance st) (emailsToAnalyze getTime (emails st))
         in case outcome run of
              Inr results \<Rightarrow>
                st\<lparr>emails := updatedEmails results (emails st),
                   stored := Some (updatedEmails results (emails st)),
                   aiInstance := instance_after run,
                   activeTab := dashboard,
                   isAnalyzing := False\<rparr>
            | Inl error \<Rightarrow>
                st\<lparr>aiInstance := instance_after run,
                   alerts := alerts st @ [alert_for error],
                   isAnalyzing := False\<rparr>))"

section \<open>Auxiliary notions\<close>

text \<open>The analysis that the merge attaches to an incoming identifier.\<close>

definition kept_analysis :: "email list \<Rightarrow> string \<Rightarrow> analysis_value option" where
  "kept_analysis es k = (case currentMap es k of None \<Rightarrow> None | Some e \<Rightarrow> analysis e)"


definition no_terminator :: "string \<Rightarrow> bool" where
  "no_terminator s = (\<forall>c\<in>set s. \<not> is_line_terminator c)"

section \<open>Concrete inputs\<close>

text \<open>
  A working set of three messages: \<open>a\<close> and \<open>b\<close> form one conversation, \<open>c\<close> is a
  conversation of its own and carries an analysis.
\<close>

definition wit_analysis :: AIAnalysis where
  "wit_analysis = \<lparr> summary = ''Invoice overdue'', priority = HIGH, urgencyScore = 90,
     category = FINANCE, actionItems = [''Pay the invoice''], sentiment = ''NEGATIVE'' \<rparr>"

definition wit_analysis2 :: AIAnalysis where
  "wit_analysis2 = \<lparr> summary = ''Lunch on Friday'', priority = LOW, urgencyScore = 10,
     category = PERSONAL, actionItems = [], sentiment = ''POSITIVE'' \<rparr>"

definition wit_raw :: "string \<Rightarrow> string option \<Rightarrow> string \<Rightarrow> bool \<Rightarrow> raw_email" where
  "wit_raw i t d r = \<lparr> id' = i, threadId = t, sender = ''bob@x.com'', senderName = ''Bob Smith'',
     subject = ''(No Subject)'', snippet = [], body = [], receivedAt = d, read = r \<rparr>"

definition wit_emails :: "email list" where
  "wit_emails =
     [spread_analysis (wit_raw ''a'' None ''2024-01-01T00:00:00Z'' True) None,
      spread_analysis (wit_raw ''b'' (Some ''a'') ''2024-01-02T00:00:00Z'' False) None,
      spread_analysis (wit_raw ''c'' None ''2024-01-01T00:00:00Z'' False) (Some (Analysis wit_analysis))]"


definition wit_getTime :: "string \<Rightarrow> int option" where
  "wit_getTime s =
     (if s = ''2024-01-01T00:00:00Z'' then Some 1704067200000
      else if s = ''2024-01-02T00:00:00Z'' then Some 1704153600000
      else None)"

definition wit_tm :: "string \<Rightarrow> int" where
  "wit_tm s = (case wit_getTime s of None \<Rightarrow> 0 | Some t \<Rightarrow> t)"

definition wit_msg :: "string \<Rightarrow> string option \<Rightarrow> BackendMessage" where
  "wit_msg i f = \<lparr> msg_id = i, msg_threadId = None, msg_snippet = None, msg_subject = None,
     msg_from = f, msg_date = Some ''2024-01-03T00:00:00Z'', msg_body = None \<rparr>"

definition wit_state :: app_state where
  "wit_state = \<lparr> emails = wit_emails, stored = None, aiInstance = None, activeTab = inbox,
     selectedThreadId = None, isSyncing = False, isAnalyzing = False, alerts = [] \<rparr>"

text \<open>A working set of one message, with the identifier \<open>constructor\<close> and an analysis.\<close>

definition wit_constructor :: app_state where
  "wit_constructor = \<lparr> emails =
       [spread_analysis (wit_raw ''constructor'' None ''2024-01-01T00:00:00Z'' False)
          (Some (Analysis wit_analysis))],
     stored = None, aiInstance = None, activeTab = inbox,
     selectedThreadId = None, isSyncing = False, isAnalyzing = False, alerts = [] \<rparr>"

text \<open>A client without a key, one whose call is refused, and one that answers for \<open>b\<close> only.\<close>

definition wit_nokey :: service where
  "wit_nokey = \<lparr> API_KEY = None, generateContent = (\<lambda>ai r. Inr None),
     JSON_parse = (\<lambda>s. Inr []) \<rparr>"

definition wit_refused :: service where
  "wit_refused = \<lparr> API_KEY = Some ''key'',
     generateContent = (\<lambda>ai r. Inl (Thrown False [] (Some \<lparr> code = Some 403, message = None \<rparr>))),
     JSON_parse = (\<lambda>s. Inr []) \<rparr>"

definition wit_answers :: service where
  "wit_answers = \<lparr> API_KEY = Some ''key'', generateContent = (\<lambda>ai r. Inr (Some ''[...]'')),
     JSON_parse = (\<lambda>s. Inr [(''b'', wit_analysis2)]) \<rparr>"

section \<open>Facts about the merge\<close>

lemma spread_analysis_simps:
  "raw_email.truncate (spread_analysis raw a) = raw"
  "analysis (spread_analysis raw a) = a"
  "id' (spread_analysis raw a) = id' raw"
  "read (spread_analysis raw a) = read raw"
  by (simp_all add: spread_analysis_def raw_email.defs email.defs)

lemma currentMap_snoc: "currentMap (es @ [e]) = (currentMap es)(id' e \<mapsto> e)"
  by (simp add: currentMap_def)

lemma currentMap_find: "currentMap es k = find (\<lambda>e. id' e = k) (rev es)"
  by (induction es rule: rev_induct) (simp_all add: currentMap_def)

lemma mergeEmails_kept:
  "mergeEmails cur inc = map (\<lambda>raw. spread_analysis raw (kept_analysis cur (id' raw))) inc"
  by (auto simp: mergeEmails_def kept_analysis_def split: option.splits)

lemma currentMap_unique:
  assumes "distinct (map id' es)" and "e \<in> set es"
  shows "currentMap es (id' e) = Some e"
  using assms
proof (induction es rule: rev_induct)
  case Nil
  then show ?case by simp
next
  case (snoc x xs)
  show ?case
  proof (cases "id' x = id' e")
    case True
    with snoc.prems have "x = e" by auto
    then show ?thesis by (simp add: currentMap_snoc)
  next
    case False
    with snoc show ?thesis by (auto simp: currentMap_snoc)
  qed
qed

lemma currentMap_none: "k \<notin> id' ` set es \<Longrightarrow> currentMap es k = None"
  by (induction es rule: rev_induct) (auto simp: currentMap_snoc currentMap_def)

lemma kept_analysis_of_spread:
  "kept_analysis (map (\<lambda>raw. spread_analysis raw (f (id' raw))) inc) k =
     (if k \<in> id' ` set inc then f k else None)"
proof (induction inc rule: rev_induct)
  case Nil
  then show ?case by (simp add: kept_analysis_def currentMap_def)
next
  case (snoc x xs)
  then show ?case
    by (auto simp: kept_analysis_def currentMap_snoc spread_analysis_simps)
qed

text \<open>
  C1. The merge returns the incoming records in their order: dropping the \<open>analysis\<close> field
  of the result gives back the incoming list, so every other field is the incoming one and
  no identifier that is only in the current list survives. The \<open>analysis\<close> of an output
  record is the one of the current record with the same identifier (the last such record,
  which is the only one when identifiers are unique), and unset when there is none.
\<close>

theorem mergeEmails_contract:
  "map raw_email.truncate (mergeEmails cur inc) = inc \<and>
   map analysis (mergeEmails cur inc) =
     map (\<lambda>raw. case find (\<lambda>e. id' e = id' raw) (rev cur) of
                  None \<Rightarrow> None | Some e \<Rightarrow> analysis e) inc \<and>
   (\<forall>e i. distinct (map id' cur) \<and> e \<in> set cur \<and> i < length inc \<and> id' e = id' (inc ! i)
      \<longrightarrow> analysis (mergeEmails cur inc ! i) = analysis e) \<and>
   (\<forall>i. i < length inc \<and> id' (inc ! i) \<notin> id' ` set cur
      \<longrightarrow> analysis (mergeEmails cur inc ! i) = None) \<and>
   (\<forall>e. e \<in> set cur \<and> id' e \<notin> id' ` set inc
      \<longrightarrow> id' e \<notin> id' ` set (mergeEmails cur inc))"
proof (intro conjI allI impI)
  show "map raw_email.truncate (mergeEmails cur inc) = inc"
    by (simp add: mergeEmails_kept spread_analysis_simps o_def)
  show "map analysis (mergeEmails cur inc) =
     map (\<lambda>raw. case find (\<lambda>e. id' e = id' raw) (rev cur) of
                  None \<Rightarrow> None | Some e \<Rightarrow> analysis e) inc"
    by (simp add: mergeEmails_kept spread_analysis_simps o_def kept_analysis_def
        currentMap_find)
next
  fix e i
  assume "distinct (map id' cur) \<and> e \<in> set cur \<and> i < length inc \<and> id' e = id' (inc ! i)"
  then show "analysis (mergeEmails cur inc ! i) = analysis e"
    using currentMap_unique [of cur e]
    by (simp add: mergeEmails_kept spread_analysis_simps kept_analysis_def)
next
  fix i
  assume "i < length inc \<and> id' (inc ! i) \<notin> id' ` set cur"
  then show "analysis (mergeEmails cur inc ! i) = None"
    by (simp add: mergeEmails_kept spread_analysis_simps kept_analysis_def currentMap_none)
next
  fix e
  assume "e \<in> set cur \<and> id' e \<notin> id' ` set inc"
  then show "id' e \<notin> id' ` set (mergeEmails cur inc)"
    by (auto simp: mergeEmails_kept spread_analysis_simps)
qed

text \<open>
  C2. Merging the same incoming list against the result of a merge changes nothing.
\<close>

theorem mergeEmails_idempotent:
  "mergeEmails (mergeEmails cur inc) inc = mergeEmails cur inc"
proof -
  have "kept_analysis (mergeEmails cur inc) (id' raw) = kept_analysis cur (id' raw)"
    if "raw \<in> set inc" for raw
    using that by (simp add: mergeEmails_kept [of cur] kept_analysis_of_spread)
  then show ?thesis
    by (simp add: mergeEmails_kept [of "mergeEmails cur inc"]) (simp add: mergeEmails_kept)
qed

section \<open>Facts about grouping\<close>

lemma groups_snoc: "groups (es @ [e]) = push_group (tid e) e (groups es)"
  by (simp add: groups_def)

lemma push_group_keys:
  "map fst (push_group k e gs) = (if k \<in> fst ` set gs then map fst gs else map fst gs @ [k])"
  by (induction gs) (force+)

lemma push_group_mem:
  "distinct (map fst gs) \<Longrightarrow> (k', g') \<in> set (push_group k e gs) \<Longrightarrow>
     (k' \<noteq> k \<and> (k', g') \<in> set gs) \<or>
     (k' = k \<and> ((\<exists>g. (k, g) \<in> set gs \<and> g' = g @ [e]) \<or> (k \<notin> fst ` set gs \<and> g' = [e])))"
proof (induction gs)
  case Nil
  then show ?case by simp
next
  case (Cons p gs)
  obtain k0 g0 where p: "p = (k0, g0)" by (cases p)
  show ?case
  proof (cases "k0 = k")
    case True
    with Cons.prems p have "(k', g') = (k, g0 @ [e]) \<or> (k', g') \<in> set gs" by simp
    moreover have "k \<notin> fst ` set gs" using Cons.prems(1) p True by simp
    ultimately show ?thesis using p True by force
  next
    case False
    with Cons.prems p have "(k', g') = (k0, g0) \<or> (k', g') \<in> set (push_group k e gs)"
      by simp
    then show ?thesis
    proof
      assume "(k', g') = (k0, g0)"
      with False p show ?thesis by simp
    next
      assume "(k', g') \<in> set (push_group k e gs)"
      with Cons.IH Cons.prems(1) have
        "(k' \<noteq> k \<and> (k', g') \<in> set gs) \<or>
         (k' = k \<and> ((\<exists>g. (k, g) \<in> set gs \<and> g' = g @ [e]) \<or> (k \<notin> fst ` set gs \<and> g' = [e])))"
        by simp
      with False p show ?thesis by auto
    qed
  qed
qed

lemma groups_distinct: "distinct (map fst (groups es))"
  by (induction es rule: rev_induct) (auto simp: groups_snoc push_group_keys groups_def)

lemma groups_keys: "fst ` set (groups es) = tid ` set es"
proof (induction es rule: rev_induct)
  case Nil
  then show ?case by (simp add: groups_def)
next
  case (snoc x xs)
  have "set (map fst (groups (xs @ [x]))) = insert (tid x) (fst ` set (groups xs))"
    unfolding groups_snoc push_group_keys by auto
  with snoc show ?case by auto
qed

lemma groups_content:
  "(k, g) \<in> set (groups es) \<Longrightarrow> g = filter (\<lambda>e. tid e = k) es \<and> g \<noteq> []"
proof (induction es arbitrary: k g rule: rev_induct)
  case Nil
  then show ?case by (simp add: groups_def)
next
  case (snoc x xs)
  from snoc.prems have "(k, g) \<in> set (push_group (tid x) x (groups xs))"
    by (simp add: groups_snoc)
  from push_group_mem [OF groups_distinct this] have mem:
    "(k \<noteq> tid x \<and> (k, g) \<in> set (groups xs)) \<or>
     (k = tid x \<and> ((\<exists>g0. (tid x, g0) \<in> set (groups xs) \<and> g = g0 @ [x]) \<or>
        (tid x \<notin> fst ` set (groups xs) \<and> g = [x])))" .
  show ?case
  proof (cases "k = tid x")
    case False
    with mem snoc.IH show ?thesis by auto
  next
    case True
    from mem True consider
      (old) g0 where "(tid x, g0) \<in> set (groups xs)" "g = g0 @ [x]"
      | (new) "tid x \<notin> fst ` set (groups xs)" "g = [x]"
      by auto
    then show ?thesis
    proof cases
      case old
      with snoc.IH [of "tid x" g0] True show ?thesis by auto
    next
      case new
      then have "tid x \<notin> tid ` set xs" by (simp add: groups_keys)
      then have "filter (\<lambda>e. tid e = tid x) xs = []"
        by (auto simp: filter_empty_conv image_iff)
      with new True show ?thesis by simp
    qed
  qed
qed

lemma push_group_mset:
  "mset (concat (map snd (push_group k e gs))) = add_mset e (mset (concat (map snd gs)))"
  by (induction gs) auto

lemma groups_mset: "mset (concat (map snd (groups es))) = mset es"
  by (induction es rule: rev_induct) (simp_all add: groups_snoc push_group_mset groups_def)

section \<open>Facts about the sort\<close>

text \<open>Any comparator: the result is a permutation.\<close>

lemma mset_insert_pivot: "mset (insert_pivot c ws p) = add_mset p (mset ws)"
proof -
  have "mset (take n ws) + mset (drop n ws) = mset ws" for n
    using mset_append [of "take n ws" "drop n ws"] by simp
  then show ?thesis by (simp add: insert_pivot_def Let_def)
qed

lemma mset_BinaryInsertionSort: "mset (BinaryInsertionSort c run rest) = mset run + mset rest"
  unfolding BinaryInsertionSort_def
  by (induction rest arbitrary: run) (simp_all add: mset_insert_pivot)

lemma CountAndMakeRun_split:
  "CountAndMakeRun c xs = (run, rest) \<Longrightarrow> mset run + mset rest = mset xs"
proof -
  have *: "mset (take n ys) + mset (drop n ys) = mset ys" for n and ys :: "'a list"
    using mset_append [of "take n ys" "drop n ys"] by simp
  assume "CountAndMakeRun c xs = (run, rest)"
  then show ?thesis
    using * [of _ xs]
    by (auto simp: CountAndMakeRun_def Let_def simp del: take_Suc_Cons drop_Suc_Cons
        split: list.splits if_splits)
qed

lemma mset_js_sort: "mset (js_sort c xs) = mset xs"
  by (auto simp: js_sort_def mset_BinaryInsertionSort CountAndMakeRun_split split: prod.splits)


lemma set_js_sort: "set (js_sort c xs) = set xs"
  using mset_js_sort [of c xs] by (metis set_mset_mset)

lemma length_js_sort: "length (js_sort c xs) = length xs"
  using mset_js_sort [of c xs] by (metis size_mset)

lemma js_sort_eq_Nil: "js_sort c xs = [] \<longleftrightarrow> xs = []"
  using length_js_sort [of c xs] by (cases xs) auto













lemma mset_concat_cong: "mset ys = mset xs \<Longrightarrow> mset (concat ys) = mset (concat xs)"
proof -
  have "mset (concat zs) = sum_mset (image_mset mset (mset zs))" for zs :: "'a list list"
    by (induction zs) simp_all
  then show "mset ys = mset xs \<Longrightarrow> mset (concat ys) = mset (concat xs)" by simp
qed

lemma mset_concat_js_sort: "mset (concat (js_sort c xss)) = mset (concat xss)"
  by (rule mset_concat_cong) (rule mset_js_sort)

lemma mset_concat_map_js_sort: "mset (concat (map (js_sort c) xss)) = mset (concat xss)"
  by (induction xss) (simp_all add: mset_js_sort)

lemma threads_mem:
  assumes "t \<in> set (threads getTime es)"
  shows "\<exists>k. t = js_sort (time_diff getTime) (filter (\<lambda>e. tid e = k) es) \<and> t \<noteq> []"
proof -
  from assms have "t \<in> js_sort (time_diff getTime) ` snd ` set (groups es)"
    unfolding threads_def set_js_sort set_map .
  then obtain k g where kg: "(k, g) \<in> set (groups es)" and t: "t = js_sort (time_diff getTime) g"
    by force
  from groups_content [OF kg] have g: "g = filter (\<lambda>e. tid e = k) es" and "g \<noteq> []"
    by blast+
  then have "t \<noteq> []" by (simp add: t js_sort_eq_Nil)
  with t g show ?thesis by blast
qed

lemma threads_mset: "mset (concat (threads getTime es)) = mset es"
  unfolding threads_def mset_concat_js_sort mset_concat_map_js_sort groups_mset ..

lemma threads_mem_key:
  assumes "t \<in> set (threads getTime es)"
  shows "t \<noteq> [] \<and> mset t = mset (filter (\<lambda>e. tid e = tid (hd t)) es)"
proof -
  from threads_mem [OF assms] obtain k where
    t: "t = js_sort (time_diff getTime) (filter (\<lambda>e. tid e = k) es)" and ne: "t \<noteq> []"
    by blast
  from t have m: "mset t = mset (filter (\<lambda>e. tid e = k) es)" by (simp add: mset_js_sort)
  from ne have "hd t \<in> set t" by simp
  also have "set t = set (filter (\<lambda>e. tid e = k) es)" using m by (metis set_mset_mset)
  finally have "tid (hd t) = k" by simp
  with m ne show ?thesis by simp
qed

lemma threads_keys_distinct: "distinct (map (\<lambda>t. tid (hd t)) (threads getTime es))"
proof -
  let ?L = "map (\<lambda>thread. js_sort (time_diff getTime) thread) (map snd (groups es))"
  have "tid (hd (js_sort (time_diff getTime) g)) = k" if "(k, g) \<in> set (groups es)" for k g
  proof -
    from groups_content [OF that] have g: "g = filter (\<lambda>e. tid e = k) es" and "g \<noteq> []"
      by blast+
    then have "js_sort (time_diff getTime) g \<noteq> []" by (simp add: js_sort_eq_Nil)
    then have "hd (js_sort (time_diff getTime) g) \<in> set (js_sort (time_diff getTime) g)"
      by simp
    then have "hd (js_sort (time_diff getTime) g) \<in> set g" by (simp add: set_js_sort)
    with g show ?thesis by simp
  qed
  then have "map (\<lambda>t. tid (hd t)) ?L = map fst (groups es)"
    by (auto simp: o_def)
  then have "distinct (map (\<lambda>t. tid (hd t)) ?L)" by (simp only: groups_distinct)
  moreover have "mset (map (\<lambda>t. tid (hd t)) (threads getTime es)) = mset (map (\<lambda>t. tid (hd t)) ?L)"
    unfolding threads_def mset_map mset_js_sort ..
  ultimately show ?thesis by (metis mset_eq_imp_distinct_iff)
qed

text \<open>
  C4. Flattening the threads gives back the working set as a multiset: the same number of
  messages, every identifier as often as in the working set, hence exactly once when the
  identifiers of the working set are unique. No thread is empty, a thread holds exactly
  the messages whose key (\<open>threadId\<close> when present and non-empty, else \<open>id\<close>) is the key of
  its first message, and no two threads have the same key: the threads partition the
  working set.
\<close>
theorem threads_partition:
  "mset (concat (threads getTime es)) = mset es \<and>
   length (concat (threads getTime es)) = length es \<and>
   mset (map id' (concat (threads getTime es))) = mset (map id' es) \<and>
   (distinct (map id' es) \<longrightarrow> distinct (map id' (concat (threads getTime es)))) \<and>
   [] \<notin> set (threads getTime es) \<and>
   (\<forall>t\<in>set (threads getTime es). mset t = mset (filter (\<lambda>e. tid e = tid (hd t)) es)) \<and>
   distinct (map (\<lambda>t. tid (hd t)) (threads getTime es))"
proof -
  have m: "mset (concat (threads getTime es)) = mset es" by (rule threads_mset)
  then have l: "length (concat (threads getTime es)) = length es" by (rule mset_eq_length)
  from m have i: "mset (map id' (concat (threads getTime es))) = mset (map id' es)"
    by (simp only: mset_map)
  then have d: "distinct (map id' es) \<longrightarrow> distinct (map id' (concat (threads getTime es)))"
    by (metis mset_eq_imp_distinct_iff)
  have n: "[] \<notin> set (threads getTime es)" using threads_mem_key by blast
  have k: "\<forall>t\<in>set (threads getTime es). mset t = mset (filter (\<lambda>e. tid e = tid (hd t)) es)"
    using threads_mem_key by blast
  from m l i d n k threads_keys_distinct show ?thesis by blast
qed



section \<open>Facts about the sender pattern\<close>

lemma backtrack_None: "backtrack n k = None \<longleftrightarrow> (\<forall>m\<le>n. k m = None)"
proof (induction n)
  case 0
  then show ?case by simp
next
  case (Suc n)
  show ?case
  proof (cases "k (Suc n)")
    case None
    then show ?thesis using Suc by (auto simp: le_Suc_eq)
  next
    case (Some r)
    then show ?thesis by auto
  qed
qed

lemma backtrack_Some:
  "m \<le> n \<Longrightarrow> k m = Some r \<Longrightarrow> (\<And>j. m < j \<Longrightarrow> j \<le> n \<Longrightarrow> k j = None) \<Longrightarrow>
   backtrack n k = Some r"
proof (induction n)
  case 0
  then show ?case by simp
next
  case (Suc n)
  show ?case
  proof (cases "m = Suc n")
    case True
    with Suc.prems(2) show ?thesis by simp
  next
    case False
    with Suc.prems(1) have "m \<le> n" by simp
    moreover have "k (Suc n) = None" using Suc.prems(3) [of "Suc n"] \<open>m \<le> n\<close> by simp
    moreover have "backtrack n k = Some r"
      using \<open>m \<le> n\<close> Suc.prems(2) Suc.prems(3) by (intro Suc.IH) simp_all
    ultimately show ?thesis by simp
  qed
qed

lemma dot_run_prefix: "dot_run s = take (length (dot_run s)) s"
  unfolding dot_run_def by (induction s) simp_all

lemma dot_run_no_terminator: "no_terminator (dot_run s)"
  by (auto simp: no_terminator_def dot_run_def dest: set_takeWhileD)

lemma take_dot_run: "m \<le> length (dot_run s) \<Longrightarrow> no_terminator (take m s)"
proof -
  assume "m \<le> length (dot_run s)"
  then have "take m s = take m (dot_run s)"
    by (subst dot_run_prefix) (simp add: min_def)
  then show ?thesis
    using dot_run_no_terminator [of s] by (auto simp: no_terminator_def dest: in_set_takeD)
qed

lemma dot_run_append:
  "no_terminator a \<Longrightarrow> \<not> is_line_terminator c \<Longrightarrow> length a < length (dot_run (a @ c # q))"
  by (simp add: dot_run_def no_terminator_def)

lemma backtrack_SomeD: "backtrack n k \<noteq> None \<Longrightarrow> \<exists>m\<le>n. k m \<noteq> None"
  by (simp add: backtrack_None)

lemma backtrack_SomeI: "m \<le> n \<Longrightarrow> k m \<noteq> None \<Longrightarrow> backtrack n k \<noteq> None"
  by (auto simp: backtrack_None)

lemma group2_step:
  "(case xs of [] \<Rightarrow> None | c # _ \<Rightarrow> if c = CHR ''>'' then Some g else None) \<noteq> None \<longleftrightarrow>
     (\<exists>q. xs = CHR ''>'' # q)"
  by (cases xs) auto

lemma group1_step:
  "(case xs of [] \<Rightarrow> None
    | c # r \<Rightarrow> if c = CHR ''<'' then
        (case match_group2 r of None \<Rightarrow> None | Some g2 \<Rightarrow> Some (g1, g2))
      else None) \<noteq> None \<longleftrightarrow>
     (\<exists>r. xs = CHR ''<'' # r \<and> match_group2 r \<noteq> None)"
  by (cases xs) (auto split: option.splits)

lemma match_group2_Some_iff:
  "match_group2 r \<noteq> None \<longleftrightarrow> (\<exists>a q. r = a @ CHR ''>'' # q \<and> no_terminator a)"
proof
  assume "match_group2 r \<noteq> None"
  from backtrack_SomeD [OF this [unfolded match_group2_def]]
  obtain m q where m: "m \<le> length (dot_run r)" and "drop m r = CHR ''>'' # q"
    unfolding group2_step by blast
  then have "r = take m r @ CHR ''>'' # q" using append_take_drop_id [of m r] by simp
  with take_dot_run [OF m] show "\<exists>a q. r = a @ CHR ''>'' # q \<and> no_terminator a" by blast
next
  assume "\<exists>a q. r = a @ CHR ''>'' # q \<and> no_terminator a"
  then obtain a q where r: "r = a @ CHR ''>'' # q" and a: "no_terminator a" by blast
  have le: "length a \<le> length (dot_run r)"
    unfolding r using dot_run_append [OF a, of "CHR ''>''" q]
    by (simp add: is_line_terminator_def)
  show "match_group2 r \<noteq> None"
    unfolding match_group2_def
    by (rule backtrack_SomeI [OF le]) (simp add: r)
qed

lemma match_at_Some_iff:
  "match_at s \<noteq> None \<longleftrightarrow>
     (\<exists>n a q. s = n @ CHR ''<'' # a @ CHR ''>'' # q \<and> no_terminator n \<and> no_terminator a)"
proof
  assume "match_at s \<noteq> None"
  from backtrack_SomeD [OF this [unfolded match_at_def]]
  obtain m r where m: "m \<le> length (dot_run s)" and d: "drop m s = CHR ''<'' # r"
    and "match_group2 r \<noteq> None"
    unfolding group1_step by blast
  then obtain a q where "r = a @ CHR ''>'' # q" "no_terminator a"
    unfolding match_group2_Some_iff by blast
  moreover from d have "s = take m s @ CHR ''<'' # r" using append_take_drop_id [of m s] by simp
  ultimately show "\<exists>n a q. s = n @ CHR ''<'' # a @ CHR ''>'' # q \<and> no_terminator n \<and> no_terminator a"
    using take_dot_run [OF m] by blast
next
  assume "\<exists>n a q. s = n @ CHR ''<'' # a @ CHR ''>'' # q \<and> no_terminator n \<and> no_terminator a"
  then obtain n a q where s: "s = n @ CHR ''<'' # a @ CHR ''>'' # q"
    and n: "no_terminator n" and a: "no_terminator a" by blast
  have le: "length n \<le> length (dot_run s)"
    unfolding s using dot_run_append [OF n, of "CHR ''<''" "a @ CHR ''>'' # q"]
    by (simp add: is_line_terminator_def)
  have g2: "match_group2 (a @ CHR ''>'' # q) \<noteq> None"
    unfolding match_group2_Some_iff using a by blast
  show "match_at s \<noteq> None"
    unfolding match_at_def
  proof (rule backtrack_SomeI [OF le])
    have "drop (length n) s = CHR ''<'' # a @ CHR ''>'' # q" by (simp add: s)
    with g2 show "(case drop (length n) s of [] \<Rightarrow> None
         | c # r \<Rightarrow> if c = CHR ''<'' then
                     (case match_group2 r of None \<Rightarrow> None
                      | Some g2 \<Rightarrow> Some (take (length n) s, g2))
                   else None) \<noteq> None"
      unfolding group1_step by blast
  qed
qed

lemma from_match_SomeD: "from_match s \<noteq> None \<Longrightarrow> \<exists>t. suffix t s \<and> match_at t \<noteq> None"
proof (induction s)
  case Nil
  then show ?case by auto
next
  case (Cons c cs)
  show ?case
  proof (cases "match_at (c # cs)")
    case None
    with Cons.prems have "from_match cs \<noteq> None" by simp
    from Cons.IH [OF this] obtain t where "suffix t cs" "match_at t \<noteq> None" by auto
    then show ?thesis by (auto simp: suffix_Cons)
  next
    case (Some r)
    then have "suffix (c # cs) (c # cs) \<and> match_at (c # cs) \<noteq> None" by simp
    then show ?thesis by (rule exI)
  qed
qed

lemma from_match_SomeI: "suffix t s \<Longrightarrow> match_at t \<noteq> None \<Longrightarrow> from_match s \<noteq> None"
proof (induction s)
  case Nil
  then show ?case by simp
next
  case (Cons c cs)
  show ?case
  proof (cases "t = c # cs")
    case True
    with Cons.prems(2) show ?thesis by (auto split: option.splits)
  next
    case False
    with Cons.prems(1) have "suffix t cs" by (simp add: suffix_Cons)
    from Cons.IH [OF this Cons.prems(2)] show ?thesis by (auto split: option.splits)
  qed
qed

lemma from_match_Some_iff:
  "from_match s \<noteq> None \<longleftrightarrow>
     (\<exists>p a q. s = p @ CHR ''<'' # a @ CHR ''>'' # q \<and> no_terminator a)"
proof
  assume "from_match s \<noteq> None"
  from from_match_SomeD [OF this] obtain t where t: "suffix t s" and "match_at t \<noteq> None" by auto
  from this(2) obtain n a q where tn: "t = n @ CHR ''<'' # a @ CHR ''>'' # q" and a: "no_terminator a"
    by (auto simp only: match_at_Some_iff)
  from t obtain p where "s = p @ t" by (auto simp: suffix_def)
  with tn have "s = (p @ n) @ CHR ''<'' # a @ CHR ''>'' # q" by simp
  with a show "\<exists>p a q. s = p @ CHR ''<'' # a @ CHR ''>'' # q \<and> no_terminator a"
    by (intro exI conjI)
next
  assume "\<exists>p a q. s = p @ CHR ''<'' # a @ CHR ''>'' # q \<and> no_terminator a"
  then obtain p a q where s: "s = p @ CHR ''<'' # a @ CHR ''>'' # q" and a: "no_terminator a"
    by auto
  have "CHR ''<'' # a @ CHR ''>'' # q = [] @ CHR ''<'' # a @ CHR ''>'' # q \<and>
        no_terminator [] \<and> no_terminator a"
    using a by (simp add: no_terminator_def)
  then have "\<exists>n a' q'. CHR ''<'' # a @ CHR ''>'' # q = n @ CHR ''<'' # a' @ CHR ''>'' # q' \<and>
        no_terminator n \<and> no_terminator a'"
    by (intro exI)
  then have m: "match_at (CHR ''<'' # a @ CHR ''>'' # q) \<noteq> None"
    by (simp only: match_at_Some_iff)
  have "suffix (CHR ''<'' # a @ CHR ''>'' # q) s" by (simp add: s suffix_def)
  from from_match_SomeI [OF this m] show "from_match s \<noteq> None" .
qed

lemma dot_run_append_eq:
  "no_terminator a \<Longrightarrow> \<not> is_line_terminator c \<Longrightarrow> dot_run (a @ c # q) = a @ c # dot_run q"
  by (simp add: dot_run_def no_terminator_def)

lemma split_after_prefix:
  assumes "name @ c # R = P @ c' # r" and "length name < length P"
  shows "\<exists>y. P = name @ c # y \<and> R = y @ c' # r"
proof -
  from assms(1) obtain us where
    "(name = P @ us \<and> us @ c # R = c' # r) \<or> (name @ us = P \<and> c # R = us @ c' # r)"
    by (auto simp: append_eq_append_conv2)
  with assms(2) have us: "name @ us = P" "c # R = us @ c' # r" by auto
  with assms(2) have "us \<noteq> []" by auto
  then obtain u y where "us = u # y" by (cases us) auto
  with us show ?thesis by auto
qed

lemma split_no_char:
  "addr @ g # tail = y @ l # r \<Longrightarrow> l \<notin> set addr \<Longrightarrow> g \<noteq> l \<Longrightarrow>
   \<exists>y'. y = addr @ g # y' \<and> tail = y' @ l # r"
proof (induction addr arbitrary: y)
  case Nil
  then show ?case by (cases y) auto
next
  case (Cons c cs)
  from Cons.prems obtain y0 where y: "y = c # y0" by (cases y) auto
  with Cons.prems have "cs @ g # tail = y0 @ l # r" "l \<notin> set cs" by auto
  from Cons.IH [OF this Cons.prems(3)] y show ?case by auto
qed

lemma match_group2_parts:
  assumes addr: "no_terminator addr" and tail: "CHR ''>'' \<notin> set (dot_run tail)"
  shows "match_group2 (addr @ CHR ''>'' # tail) = Some addr"
proof -
  let ?r = "addr @ CHR ''>'' # tail"
  have le: "length addr \<le> length (dot_run ?r)"
    using dot_run_append [OF addr, of "CHR ''>''" tail] by (simp add: is_line_terminator_def)
  show ?thesis
    unfolding match_group2_def
  proof (rule backtrack_Some [OF le])
    show "(case drop (length addr) ?r of [] \<Rightarrow> None
           | c # _ \<Rightarrow> if c = CHR ''>'' then Some (take (length addr) ?r) else None) = Some addr"
      by simp
  next
    fix j assume j: "length addr < j" "j \<le> length (dot_run ?r)"
    have "\<not> (\<exists>x. drop j ?r = CHR ''>'' # x)"
    proof
      assume "\<exists>x. drop j ?r = CHR ''>'' # x"
      then obtain x where x: "drop j ?r = CHR ''>'' # x" by blast
      then have eq: "addr @ CHR ''>'' # tail = take j ?r @ CHR ''>'' # x"
        using append_take_drop_id [of j ?r] by simp
      from x have "j < length ?r" by (cases "j < length ?r") auto
      with j(1) have "length addr < length (take j ?r)" by simp
      from split_after_prefix [OF eq this] obtain y where
        y: "take j ?r = addr @ CHR ''>'' # y" "tail = y @ CHR ''>'' # x" by blast
      have "no_terminator (take j ?r)" by (rule take_dot_run [OF j(2)])
      then have "no_terminator (addr @ CHR ''>'' # y)" by (simp only: y(1))
      then have "no_terminator y" by (simp add: no_terminator_def)
      then have "dot_run tail = y @ CHR ''>'' # dot_run x"
        unfolding y(2) by (rule dot_run_append_eq) (simp add: is_line_terminator_def)
      with tail show False by simp
    qed
    then show "(case drop j ?r of [] \<Rightarrow> None
           | c # _ \<Rightarrow> if c = CHR ''>'' then Some (take j ?r) else None) = None"
      by (cases "drop j ?r") auto
  qed
qed

lemma match_at_parts:
  assumes name: "no_terminator name" and addr: "no_terminator addr"
    and lt: "CHR ''<'' \<notin> set addr" and tail: "CHR ''>'' \<notin> set (dot_run tail)"
  shows "match_at (name @ CHR ''<'' # addr @ CHR ''>'' # tail) = Some (name, addr)"
proof -
  let ?t = "name @ CHR ''<'' # addr @ CHR ''>'' # tail"
  have le: "length name \<le> length (dot_run ?t)"
    using dot_run_append [OF name, of "CHR ''<''" "addr @ CHR ''>'' # tail"]
    by (simp add: is_line_terminator_def)
  note g2 = match_group2_parts [OF addr tail]
  show ?thesis
    unfolding match_at_def
  proof (rule backtrack_Some [OF le])
    show "(case drop (length name) ?t of [] \<Rightarrow> None
           | c # r \<Rightarrow> if c = CHR ''<'' then
               (case match_group2 r of None \<Rightarrow> None
                | Some g2 \<Rightarrow> Some (take (length name) ?t, g2))
             else None) = Some (name, addr)"
      using g2 by simp
  next
    fix j assume j: "length name < j" "j \<le> length (dot_run ?t)"
    have "\<not> (\<exists>r. drop j ?t = CHR ''<'' # r \<and> match_group2 r \<noteq> None)"
    proof
      assume "\<exists>r. drop j ?t = CHR ''<'' # r \<and> match_group2 r \<noteq> None"
      then obtain r where r: "drop j ?t = CHR ''<'' # r" and "match_group2 r \<noteq> None" by blast
      then obtain a q where aq: "r = a @ CHR ''>'' # q" "no_terminator a"
        unfolding match_group2_Some_iff by blast
      from r have eq: "name @ CHR ''<'' # (addr @ CHR ''>'' # tail) = take j ?t @ CHR ''<'' # r"
        using append_take_drop_id [of j ?t] by simp
      from r have "j < length ?t" by (cases "j < length ?t") auto
      with j(1) have "length name < length (take j ?t)" by simp
      from split_after_prefix [OF eq this] obtain y where
        y: "take j ?t = name @ CHR ''<'' # y" "addr @ CHR ''>'' # tail = y @ CHR ''<'' # r"
        by blast
      from split_no_char [OF y(2) lt] obtain y' where
        y': "y = addr @ CHR ''>'' # y'" "tail = y' @ CHR ''<'' # r" by auto
      have "no_terminator (take j ?t)" by (rule take_dot_run [OF j(2)])
      then have "no_terminator (name @ CHR ''<'' # addr @ CHR ''>'' # y')"
        by (simp only: y(1) y'(1))
      then have "no_terminator y'" by (simp add: no_terminator_def)
      with aq(2) have "no_terminator (y' @ CHR ''<'' # a)"
        by (auto simp: no_terminator_def is_line_terminator_def)
      moreover have "tail = (y' @ CHR ''<'' # a) @ CHR ''>'' # q" by (simp add: y'(2) aq(1))
      ultimately have "dot_run tail = (y' @ CHR ''<'' # a) @ CHR ''>'' # dot_run q"
        using dot_run_append_eq [of "y' @ CHR ''<'' # a" "CHR ''>''" q]
        by (simp add: is_line_terminator_def)
      with tail show False by simp
    qed
    then show "(case drop j ?t of [] \<Rightarrow> None
           | c # r \<Rightarrow> if c = CHR ''<'' then
               (case match_group2 r of None \<Rightarrow> None
                | Some g2 \<Rightarrow> Some (take j ?t, g2))
             else None) = None"
      by (cases "drop j ?t") (auto split: option.splits)
  qed
qed

lemma from_match_skip:
  "(\<And>u. suffix u pre \<Longrightarrow> u \<noteq> [] \<Longrightarrow> match_at (u @ t) = None) \<Longrightarrow>
   from_match (pre @ t) = from_match t"
proof (induction pre)
  case Nil
  then show ?case by simp
next
  case (Cons c cs)
  have "match_at ((c # cs) @ t) = None" by (rule Cons.prems) simp_all
  moreover have "from_match (cs @ t) = from_match t"
    by (rule Cons.IH) (rule Cons.prems, simp_all add: suffix_ConsI)
  ultimately show ?case by simp
qed

lemma from_match_parts:
  assumes start: "pre = [] \<or> is_line_terminator (last pre)"
    and before: "\<not> (\<exists>p a q. pre = p @ CHR ''<'' # a @ CHR ''>'' # q \<and> no_terminator a)"
    and name: "no_terminator name" and addr: "no_terminator addr"
    and lt: "CHR ''<'' \<notin> set addr" and tail: "CHR ''>'' \<notin> set (dot_run tail)"
  shows "from_match (pre @ name @ CHR ''<'' # addr @ CHR ''>'' # tail) = Some (name, addr)"
proof -
  let ?t = "name @ CHR ''<'' # addr @ CHR ''>'' # tail"
  have m: "match_at ?t = Some (name, addr)" by (rule match_at_parts [OF name addr lt tail])
  have t: "from_match ?t = Some (name, addr)"
  proof (cases ?t)
    case Nil
    then show ?thesis by simp
  next
    case (Cons c cs)
    with m show ?thesis by simp
  qed
  have "match_at (u @ ?t) = None" if u: "suffix u pre" "u \<noteq> []" for u
  proof (rule ccontr)
    assume "match_at (u @ ?t) \<noteq> None"
    then obtain n a q where eq: "u @ ?t = n @ CHR ''<'' # a @ CHR ''>'' # q"
      and n: "no_terminator n" and a: "no_terminator a"
      unfolding match_at_Some_iff by blast
    from u obtain p0 where p0: "pre = p0 @ u" by (auto simp: suffix_def)
    with u(2) start have "is_line_terminator (last u)" by auto
    with u(2) obtain v b where uv: "u = v @ [b]" and b: "is_line_terminator b"
      by (metis append_butlast_last_id)
    let ?seg = "n @ CHR ''<'' # a @ [CHR ''>'']"
    have seg: "no_terminator ?seg"
      using n a by (auto simp: no_terminator_def is_line_terminator_def)
    from eq uv have "?seg @ q = v @ b # ?t" by simp
    then obtain w where
      "(?seg = v @ w \<and> w @ q = b # ?t) \<or> (?seg @ w = v \<and> q = w @ b # ?t)"
      unfolding append_eq_append_conv2 by blast
    then have "\<exists>w'. v = ?seg @ w'"
    proof
      assume c1: "?seg = v @ w \<and> w @ q = b # ?t"
      show ?thesis
      proof (cases w)
        case Nil
        with c1 show ?thesis by simp
      next
        case (Cons x w')
        with c1 have "x = b" by simp
        with c1 Cons have "b \<in> set ?seg" by (metis in_set_conv_decomp)
        with seg b have False unfolding no_terminator_def by blast
        then show ?thesis ..
      qed
    next
      assume "?seg @ w = v \<and> q = w @ b # ?t"
      then show ?thesis by blast
    qed
    then obtain w' where "v = ?seg @ w'" by blast
    with p0 uv have "pre = (p0 @ n) @ CHR ''<'' # a @ CHR ''>'' # (w' @ [b])" by simp
    with a before show False by blast
  qed
  then have "from_match (pre @ ?t) = from_match ?t" by (rule from_match_skip)
  with t show ?thesis by simp
qed

section \<open>The normalizer and the read flag\<close>




text \<open>
  C5, as amended. The normalizer copies \<open>threadId\<close> from the raw record and leaves it unset
  when the raw record has none; the fallback to \<open>id\<close> is in the grouping key of the thread
  assembler, which is the raw \<open>threadId\<close> when present and non-empty and the \<open>id\<close>
  otherwise, also after the merge has attached an analysis.
\<close>
theorem normalizer_threadId:
  "threadId (mapBackendMessageToEmail now msg) = msg_threadId msg \<and>
   tid (mapBackendMessageToEmail now msg) =
     (case msg_threadId msg of None \<Rightarrow> msg_id msg
      | Some t \<Rightarrow> if t = [] then msg_id msg else t) \<and>
   tid (spread_analysis (mapBackendMessageToEmail now msg) a) =
     tid (mapBackendMessageToEmail now msg)"
  by (simp add: mapBackendMessageToEmail_def tid_def or_else_def spread_analysis_def
      raw_email.defs email.defs split: option.splits)

text \<open>
  C5 as stated fails: for a raw message \<open>b\<close> without \<open>threadId\<close> the normalizer's
  \<open>threadId\<close> is unset, not \<open>b\<close>.
\<close>
theorem normalizer_threadId_counterexample:
  "threadId (mapBackendMessageToEmail ''2024-01-02T00:00:00Z''
      \<lparr> msg_id = ''b'', msg_threadId = None, msg_snippet = None, msg_subject = None,
        msg_from = None, msg_date = None, msg_body = None \<rparr>) = None \<and>
   threadId (mapBackendMessageToEmail ''2024-01-02T00:00:00Z''
      \<lparr> msg_id = ''b'', msg_threadId = None, msg_snippet = None, msg_subject = None,
        msg_from = None, msg_date = None, msg_body = None \<rparr>) \<noteq> Some ''b''"
  by (simp add: mapBackendMessageToEmail_def)

text \<open>
  C6, as amended. For a non-empty \<open>from\<close> that matches the pattern, \<open>senderName\<close> is the name
  part trimmed and then freed of its double quotes, and \<open>sender\<close> is the address part
  trimmed; for a non-empty \<open>from\<close> that does not match, both are the whole string; for an
  absent or empty \<open>from\<close>, both are the fixed sentinels. A header matches exactly when it
  has a \<^verbatim>\<open><\<close> with a \<^verbatim>\<open>>\<close> after it on the same line. The parts are those of the first
  line with such a pair (\<open>pre\<close> is what stands before that line): the name \<open>n\<close> is the line
  up to its last \<^verbatim>\<open><\<close> that a \<^verbatim>\<open>>\<close> follows, the address \<open>d\<close> runs from there to the last
  \<^verbatim>\<open>>\<close> of the line, and \<open>tail\<close> is what follows.
\<close>
theorem normalizer_sender:
  "(msg_from msg = Some s \<and> s \<noteq> [] \<and> from_match s = Some (name, addr) \<longrightarrow>
      senderName (mapBackendMessageToEmail now msg) = strip_quotes (trim name) \<and>
      sender (mapBackendMessageToEmail now msg) = trim addr) \<and>
   (msg_from msg = Some s \<and> s \<noteq> [] \<and> from_match s = None \<longrightarrow>
      senderName (mapBackendMessageToEmail now msg) = s \<and>
      sender (mapBackendMessageToEmail now msg) = s) \<and>
   (msg_from msg = None \<or> msg_from msg = Some [] \<longrightarrow>
      senderName (mapBackendMessageToEmail now msg) = ''Unknown'' \<and>
      sender (mapBackendMessageToEmail now msg) = ''unknown@example.com'') \<and>
   ((from_match h \<noteq> None) =
      (\<exists>p a q. h = p @ ''<'' @ a @ ''>'' @ q \<and> no_terminator a)) \<and>
   ((pre = [] \<or> is_line_terminator (last pre)) \<and>
    \<not> (\<exists>p a q. pre = p @ ''<'' @ a @ ''>'' @ q \<and> no_terminator a) \<and>
    no_terminator n \<and> no_terminator d \<and> CHR ''<'' \<notin> set d \<and>
    CHR ''>'' \<notin> set (dot_run tail) \<longrightarrow>
      from_match (pre @ n @ ''<'' @ d @ ''>'' @ tail) = Some (n, d))"
proof (intro conjI impI)
  assume a: "msg_from msg = Some s \<and> s \<noteq> [] \<and> from_match s = Some (name, addr)"
  then show "senderName (mapBackendMessageToEmail now msg) = strip_quotes (trim name)"
    and "sender (mapBackendMessageToEmail now msg) = trim addr"
    by (simp_all add: mapBackendMessageToEmail_def parse_sender_def)
next
  assume a: "msg_from msg = Some s \<and> s \<noteq> [] \<and> from_match s = None"
  then show "senderName (mapBackendMessageToEmail now msg) = s"
    and "sender (mapBackendMessageToEmail now msg) = s"
    by (simp_all add: mapBackendMessageToEmail_def parse_sender_def)
next
  assume "msg_from msg = None \<or> msg_from msg = Some []"
  then show "senderName (mapBackendMessageToEmail now msg) = ''Unknown''"
    and "sender (mapBackendMessageToEmail now msg) = ''unknown@example.com''"
    by (auto simp: mapBackendMessageToEmail_def parse_sender_def)
next
  show "(from_match h \<noteq> None) =
      (\<exists>p a q. h = p @ ''<'' @ a @ ''>'' @ q \<and> no_terminator a)"
    unfolding from_match_Some_iff by simp
next
  assume a: "(pre = [] \<or> is_line_terminator (last pre)) \<and>
    \<not> (\<exists>p a q. pre = p @ ''<'' @ a @ ''>'' @ q \<and> no_terminator a) \<and>
    no_terminator n \<and> no_terminator d \<and> CHR ''<'' \<notin> set d \<and>
    CHR ''>'' \<notin> set (dot_run tail)"
  then have "\<not> (\<exists>p a q. pre = p @ CHR ''<'' # a @ CHR ''>'' # q \<and> no_terminator a)"
    by simp
  with a have "from_match (pre @ n @ CHR ''<'' # d @ CHR ''>'' # tail) = Some (n, d)"
    by (intro from_match_parts) simp_all
  then show "from_match (pre @ n @ ''<'' @ d @ ''>'' @ tail) = Some (n, d)" by simp
qed

text \<open>
  C6 as stated fails: an empty \<open>from\<close> is a header that does not match the pattern, yet
  the normalizer answers with the sentinels, not with the (empty) header.
\<close>
theorem normalizer_sender_counterexample:
  "msg_from \<lparr> msg_id = ''a'', msg_threadId = None, msg_snippet = None, msg_subject = None,
        msg_from = Some [], msg_date = None, msg_body = None \<rparr> = Some [] \<and>
   from_match [] = None \<and>
   senderName (mapBackendMessageToEmail ''2024-01-01T00:00:00Z''
      \<lparr> msg_id = ''a'', msg_threadId = None, msg_snippet = None, msg_subject = None,
        msg_from = Some [], msg_date = None, msg_body = None \<rparr>) \<noteq> [] \<and>
   sender (mapBackendMessageToEmail ''2024-01-01T00:00:00Z''
      \<lparr> msg_id = ''a'', msg_threadId = None, msg_snippet = None, msg_subject = None,
        msg_from = Some [], msg_date = None, msg_body = None \<rparr>) = ''unknown@example.com''"
  by (simp add: mapBackendMessageToEmail_def parse_sender_def match_at_def dot_run_def)



section \<open>The analysis client and its caller\<close>

lemma getAI_missing_key:
  "k = None \<or> k = Some [] \<Longrightarrow> getAI k None = (None, Inl (new_Error config_message))"
  by (auto simp: getAI_def)

lemma rethrow_plain: "rethrow (new_Error m) = new_Error m"
  by (simp add: rethrow_def new_Error_def)

lemma analyzeEmailBatch_service_failure:
  "getAI (API_KEY svc) inst = (inst', Inr ai) \<Longrightarrow>
   generateContent svc ai (analysis_prompt es) = Inl e \<Longrightarrow>
   outcome (analyzeEmailBatch svc inst es) = Inl (rethrow e)"
  by (simp add: analyzeEmailBatch_def try_catch_def)

lemma analyzeEmailBatch_try_catch:
  "outcome (analyzeEmailBatch svc inst es) = Inl e \<Longrightarrow> \<exists>e0. e = rethrow e0"
  by (auto simp: analyzeEmailBatch_def try_catch_def Let_def split: prod.splits sum.splits if_splits)

lemma handleRunAI_failure:
  "outcome (analyzeEmailBatch svc (aiInstance st) (emailsToAnalyze getTime (emails st))) = Inl e \<Longrightarrow>
   emails (handleRunAI getTime svc st) = emails st \<and> stored (handleRunAI getTime svc st) = stored st"
  by (simp add: handleRunAI_def Let_def)

lemma handleRunAI_success:
  "emails st \<noteq> [] \<Longrightarrow>
   outcome (analyzeEmailBatch svc (aiInstance st) (emailsToAnalyze getTime (emails st))) = Inr results \<Longrightarrow>
   emails (handleRunAI getTime svc st) = updatedEmails results (emails st)"
  by (simp add: handleRunAI_def Let_def)

text \<open>
  C7. With no client built and a missing or empty key, the batch analysis sends no request
  and throws the configuration error. When the remote call throws a value with an \<open>error\<close>
  property, code 403 or a message containing \<open>leaked\<close> gives the leaked-key error, else
  code 401 or a message containing \<open>API key\<close> gives the invalid-key error, else a non-empty
  message gives the generic \<open>API Error\<close>, else the value is thrown on; a value without
  \<open>error\<close> property is thrown on. Whenever the batch analysis throws, \<open>handleRunAI\<close> leaves
  the working set and the saved list as they were. The messages are pairwise distinct.
\<close>
theorem batch_failure_modes:
  "((API_KEY svc = None \<or> API_KEY svc = Some []) \<longrightarrow>
      analyzeEmailBatch svc None es =
        \<lparr> instance_after = None, requests_sent = [],
          outcome = Inl (new_Error config_message) \<rparr>) \<and>
   (getAI (API_KEY svc) inst = (inst', Inr ai) \<and>
    generateContent svc ai (analysis_prompt es) = Inl (Thrown b m (Some err)) \<longrightarrow>
      outcome (analyzeEmailBatch svc inst es) =
        (if code err = Some 403 \<or> js_includes (message err) ''leaked''
           then Inl (new_Error leaked_message)
         else if code err = Some 401 \<or> js_includes (message err) ''API key''
           then Inl (new_Error invalid_message)
         else (case message err of
                 None \<Rightarrow> Inl (Thrown b m (Some err))
               | Some t \<Rightarrow> if t = [] then Inl (Thrown b m (Some err))
                          else Inl (new_Error (''API Error: '' @ t))))) \<and>
   (getAI (API_KEY svc) inst = (inst', Inr ai) \<and>
    generateContent svc ai (analysis_prompt es) = Inl (Thrown b m None) \<longrightarrow>
      outcome (analyzeEmailBatch svc inst es) = Inl (Thrown b m None)) \<and>
   (outcome (analyzeEmailBatch svc (aiInstance st) (emailsToAnalyze getTime (emails st))) = Inl e \<longrightarrow>
      emails (handleRunAI getTime svc st) = emails st \<and>
      stored (handleRunAI getTime svc st) = stored st) \<and>
   config_message \<noteq> leaked_message \<and> config_message \<noteq> invalid_message \<and>
   leaked_message \<noteq> invalid_message \<and>
   leaked_message \<noteq> ''API Error: '' @ x \<and> invalid_message \<noteq> ''API Error: '' @ x \<and>
   config_message \<noteq> ''API Error: '' @ x"
proof (intro conjI impI)
  assume "API_KEY svc = None \<or> API_KEY svc = Some []"
  from getAI_missing_key [OF this]
  show "analyzeEmailBatch svc None es =
        \<lparr> instance_after = None, requests_sent = [],
          outcome = Inl (new_Error config_message) \<rparr>"
    by (simp add: analyzeEmailBatch_def try_catch_def rethrow_plain)
next
  assume "getAI (API_KEY svc) inst = (inst', Inr ai) \<and>
    generateContent svc ai (analysis_prompt es) = Inl (Thrown b m (Some err))"
  then have "outcome (analyzeEmailBatch svc inst es) = Inl (rethrow (Thrown b m (Some err)))"
    by (simp add: analyzeEmailBatch_service_failure)
  then show "outcome (analyzeEmailBatch svc inst es) =
        (if code err = Some 403 \<or> js_includes (message err) ''leaked''
           then Inl (new_Error leaked_message)
         else if code err = Some 401 \<or> js_includes (message err) ''API key''
           then Inl (new_Error invalid_message)
         else (case message err of
                 None \<Rightarrow> Inl (Thrown b m (Some err))
               | Some t \<Rightarrow> if t = [] then Inl (Thrown b m (Some err))
                          else Inl (new_Error (''API Error: '' @ t))))"
    by (auto simp: rethrow_def split: option.splits)
next
  assume "getAI (API_KEY svc) inst = (inst', Inr ai) \<and>
    generateContent svc ai (analysis_prompt es) = Inl (Thrown b m None)"
  then have "outcome (analyzeEmailBatch svc inst es) = Inl (rethrow (Thrown b m None))"
    by (simp add: analyzeEmailBatch_service_failure)
  then show "outcome (analyzeEmailBatch svc inst es) = Inl (Thrown b m None)"
    by (simp add: rethrow_def)
next
  assume "outcome (analyzeEmailBatch svc (aiInstance st) (emailsToAnalyze getTime (emails st))) = Inl e"
  from handleRunAI_failure [OF this]
  show "emails (handleRunAI getTime svc st) = emails st"
    and "stored (handleRunAI getTime svc st) = stored st" by simp_all
next
  show "config_message \<noteq> leaked_message" by (simp add: config_message_def leaked_message_def)
  show "config_message \<noteq> invalid_message" by (simp add: config_message_def invalid_message_def)
  show "leaked_message \<noteq> invalid_message" by (simp add: leaked_message_def invalid_message_def)
  show "leaked_message \<noteq> ''API Error: '' @ x" by (simp add: leaked_message_def)
  show "invalid_message \<noteq> ''API Error: '' @ x" by (simp add: invalid_message_def)
  show "config_message \<noteq> ''API Error: '' @ x" by (simp add: config_message_def)
qed

lemma result_map_snoc: "result_map (items @ [item]) = assign (result_map items) item"
  by (simp add: result_map_def)

lemma result_map_ordinary:
  "''__proto__'' \<notin> fst ` set items \<Longrightarrow>
   proto (result_map items) = None \<and> own (result_map items) = map_of (rev items)"
proof (induction items rule: rev_induct)
  case Nil
  then show ?case by (simp add: result_map_def)
next
  case (snoc item items)
  then show ?case
    by (cases item) (auto simp: result_map_snoc assign_def)
qed

lemma get_truthy_ordinary:
  "proto results = None \<Longrightarrow> k \<noteq> ''__proto__'' \<Longrightarrow> k \<notin> set object_prototype_functions \<Longrightarrow>
   get_truthy results k = map_option Analysis (own results k)"
  by (simp add: get_truthy_def split: option.splits)

text \<open>
  What the update of \<open>handleRunAI\<close> does with a returned object: a message for which the
  property read gives nothing truthy is unchanged, any other message differs only in
  \<open>analysis\<close>, which becomes the value read. For a response without \<^verbatim>\<open>__proto__\<close> and an
  identifier that names no member of \<^verbatim>\<open>Object.prototype\<close>, the value read is the analysis
  of the last item with that identifier, and nothing when there is no such item.
\<close>

lemma handleRunAI_frame:
  assumes "emails st \<noteq> []"
    and "outcome (analyzeEmailBatch svc (aiInstance st) (emailsToAnalyze getTime (emails st))) =
      Inr results"
  shows "length (emails (handleRunAI getTime svc st)) = length (emails st)"
    and "i < length (emails st) \<Longrightarrow> get_truthy results (id' (emails st ! i)) = None \<Longrightarrow>
      emails (handleRunAI getTime svc st) ! i = emails st ! i"
    and "i < length (emails st) \<Longrightarrow> get_truthy results (id' (emails st ! i)) = Some v \<Longrightarrow>
      emails (handleRunAI getTime svc st) ! i = (emails st ! i)\<lparr>analysis := Some v\<rparr>"
proof -
  from assms have "emails (handleRunAI getTime svc st) = updatedEmails results (emails st)"
    by (simp add: handleRunAI_success)
  then show "length (emails (handleRunAI getTime svc st)) = length (emails st)"
    and "i < length (emails st) \<Longrightarrow> get_truthy results (id' (emails st ! i)) = None \<Longrightarrow>
      emails (handleRunAI getTime svc st) ! i = emails st ! i"
    and "i < length (emails st) \<Longrightarrow> get_truthy results (id' (emails st ! i)) = Some v \<Longrightarrow>
      emails (handleRunAI getTime svc st) ! i = (emails st ! i)\<lparr>analysis := Some v\<rparr>"
    by (simp_all add: updatedEmails_def)
qed

text \<open>
  C8 fails on the code. The message \<open>constructor\<close> carries an analysis, and the response
  has an item for \<open>b\<close> only, so the returned object has no own property \<open>constructor\<close>; the
  property read finds the function that the object inherits from \<^verbatim>\<open>Object.prototype\<close>, and
  \<open>handleRunAI\<close> stores it in place of the analysis.
\<close>
theorem batch_response_inherited_member:
  "outcome (analyzeEmailBatch wit_answers (aiInstance wit_constructor)
      (emailsToAnalyze wit_getTime (emails wit_constructor))) =
     Inr (result_map [(''b'', wit_analysis2)]) \<and>
   own (result_map [(''b'', wit_analysis2)]) ''constructor'' = None \<and>
   id' (emails wit_constructor ! 0) = ''constructor'' \<and>
   analysis (emails wit_constructor ! 0) = Some (Analysis wit_analysis) \<and>
   analysis (emails (handleRunAI wit_getTime wit_answers wit_constructor) ! 0) =
     Some (Member ''constructor'')"
proof -
  have r: "outcome (analyzeEmailBatch wit_answers (aiInstance wit_constructor)
      (emailsToAnalyze wit_getTime (emails wit_constructor))) =
     Inr (result_map [(''b'', wit_analysis2)])"
    by (simp add: wit_constructor_def wit_answers_def analyzeEmailBatch_def getAI_def
        try_catch_def)
  have o: "own (result_map [(''b'', wit_analysis2)]) ''constructor'' = None"
    by (simp add: result_map_def assign_def)
  have g: "get_truthy (result_map [(''b'', wit_analysis2)]) ''constructor'' =
      Some (Member ''constructor'')"
    by (simp add: get_truthy_def result_map_def assign_def object_prototype_functions_def)
  have e: "emails wit_constructor \<noteq> []" "id' (emails wit_constructor ! 0) = ''constructor''"
    "analysis (emails wit_constructor ! 0) = Some (Analysis wit_analysis)"
    by (simp_all add: wit_constructor_def wit_raw_def spread_analysis_def raw_email.defs
        email.defs)
  have "emails (handleRunAI wit_getTime wit_answers wit_constructor) =
      updatedEmails (result_map [(''b'', wit_analysis2)]) (emails wit_constructor)"
    using e(1) r by (rule handleRunAI_success)
  then have "analysis (emails (handleRunAI wit_getTime wit_answers wit_constructor) ! 0) =
      Some (Member ''constructor'')"
    using g e(2) by (simp add: updatedEmails_def wit_constructor_def)
  with r o e show ?thesis by simp
qed

text \<open>
  C9. The reply drafting always returns a string. When the key is missing, or the remote
  call throws, it returns the fixed error string, where the batch analysis throws.
\<close>
theorem generateSmartReply_never_throws:
  "(\<exists>s. outcome (generateSmartReply svc inst email) = Inr s) \<and>
   ((API_KEY svc = None \<or> API_KEY svc = Some []) \<longrightarrow>
      outcome (generateSmartReply svc None email) = Inr ''Error generating reply. Please try again.'' \<and>
      (\<exists>e. outcome (analyzeEmailBatch svc None es) = Inl e)) \<and>
   (getAI (API_KEY svc) inst = (inst', Inr ai) \<and>
    generateContent svc ai (reply_prompt email) = Inl e \<longrightarrow>
      outcome (generateSmartReply svc inst email) = Inr ''Error generating reply. Please try again.'') \<and>
   (getAI (API_KEY svc) inst = (inst', Inr ai) \<and>
    generateContent svc ai (analysis_prompt es) = Inl e \<longrightarrow>
      (\<exists>e'. outcome (analyzeEmailBatch svc inst es) = Inl e'))"
proof (intro conjI impI)
  show "\<exists>s. outcome (generateSmartReply svc inst email) = Inr s"
    by (auto simp: generateSmartReply_def try_catch_def Let_def split: prod.splits sum.splits)
next
  assume k: "API_KEY svc = None \<or> API_KEY svc = Some []"
  from getAI_missing_key [OF k]
  show "outcome (generateSmartReply svc None email) = Inr ''Error generating reply. Please try again.''"
    by (simp add: generateSmartReply_def try_catch_def)
  from getAI_missing_key [OF k]
  show "\<exists>e. outcome (analyzeEmailBatch svc None es) = Inl e"
    by (simp add: analyzeEmailBatch_def try_catch_def)
next
  assume "getAI (API_KEY svc) inst = (inst', Inr ai) \<and>
    generateContent svc ai (reply_prompt email) = Inl e"
  then show "outcome (generateSmartReply svc inst email) = Inr ''Error generating reply. Please try again.''"
    by (simp add: generateSmartReply_def try_catch_def)
next
  assume "getAI (API_KEY svc) inst = (inst', Inr ai) \<and>
    generateContent svc ai (analysis_prompt es) = Inl e"
  then show "\<exists>e'. outcome (analyzeEmailBatch svc inst es) = Inl e'"
    by (simp add: analyzeEmailBatch_service_failure)
qed

section \<open>The theorems at the concrete inputs\<close>

lemmas wit_defs = wit_emails_def wit_raw_def wit_getTime_def wit_tm_def spread_analysis_def
  raw_email.defs email.defs


theorem mergeEmails_contract_witness:
  "distinct (map id' wit_emails) \<and>
   analysis (mergeEmails wit_emails
     [wit_raw ''c'' None ''2024-01-05T00:00:00Z'' False,
      wit_raw ''d'' None ''2024-01-05T00:00:00Z'' False] ! 0) = Some (Analysis wit_analysis) \<and>
   analysis (mergeEmails wit_emails
     [wit_raw ''c'' None ''2024-01-05T00:00:00Z'' False,
      wit_raw ''d'' None ''2024-01-05T00:00:00Z'' False] ! 1) = None \<and>
   ''a'' \<notin> id' ` set (mergeEmails wit_emails
     [wit_raw ''c'' None ''2024-01-05T00:00:00Z'' False,
      wit_raw ''d'' None ''2024-01-05T00:00:00Z'' False])"
proof -
  let ?inc = "[wit_raw ''c'' None ''2024-01-05T00:00:00Z'' False,
      wit_raw ''d'' None ''2024-01-05T00:00:00Z'' False]"
  note c = mergeEmails_contract [of wit_emails ?inc]
  have d: "distinct (map id' wit_emails)" by (simp add: wit_defs)
  from c have "distinct (map id' wit_emails) \<and> wit_emails ! 2 \<in> set wit_emails \<and> 0 < length ?inc \<and>
      id' (wit_emails ! 2) = id' (?inc ! 0)
      \<longrightarrow> analysis (mergeEmails wit_emails ?inc ! 0) = analysis (wit_emails ! 2)"
    by blast
  then have 1: "analysis (mergeEmails wit_emails ?inc ! 0) = Some (Analysis wit_analysis)"
    by (simp add: wit_defs)
  from c have "1 < length ?inc \<and> id' (?inc ! 1) \<notin> id' ` set wit_emails
      \<longrightarrow> analysis (mergeEmails wit_emails ?inc ! 1) = None"
    by blast
  then have 2: "analysis (mergeEmails wit_emails ?inc ! 1) = None"
    by (simp add: wit_defs)
  from c have "wit_emails ! 0 \<in> set wit_emails \<and> id' (wit_emails ! 0) \<notin> id' ` set ?inc
      \<longrightarrow> id' (wit_emails ! 0) \<notin> id' ` set (mergeEmails wit_emails ?inc)"
    by blast
  then have 3: "''a'' \<notin> id' ` set (mergeEmails wit_emails ?inc)"
    by (simp add: wit_defs)
  from d 1 2 3 show ?thesis by blast
qed


theorem threads_partition_witness:
  "distinct (map id' wit_emails) \<and>
   distinct (map id' (concat (threads wit_getTime wit_emails))) \<and>
   length (concat (threads wit_getTime wit_emails)) = 3 \<and>
   list_all (\<lambda>t. mset t = mset (filter (\<lambda>e. tid e = tid (hd t)) wit_emails))
     (threads wit_getTime wit_emails)"
proof -
  note p = threads_partition [of wit_getTime wit_emails]
  have d: "distinct (map id' wit_emails)" by (simp add: wit_defs)
  with p have 1: "distinct (map id' (concat (threads wit_getTime wit_emails)))" by blast
  from p have "length (concat (threads wit_getTime wit_emails)) = length wit_emails" by blast
  then have 2: "length (concat (threads wit_getTime wit_emails)) = 3" by (simp add: wit_emails_def)
  from p have "\<forall>t\<in>set (threads wit_getTime wit_emails).
      mset t = mset (filter (\<lambda>e. tid e = tid (hd t)) wit_emails)" by blast
  then have 3: "list_all (\<lambda>t. mset t = mset (filter (\<lambda>e. tid e = tid (hd t)) wit_emails))
     (threads wit_getTime wit_emails)"
    by (simp only: list_all_iff)
  from d 1 2 3 show ?thesis by blast
qed

theorem normalizer_sender_witness:
  "senderName (mapBackendMessageToEmail ''now''
      (wit_msg ''a'' (Some (CHR 0x22 # ''Bob Smith'' @ [CHR 0x22] @ '' <bob@x.com> (home)'')))) =
     ''Bob Smith'' \<and>
   sender (mapBackendMessageToEmail ''now''
      (wit_msg ''a'' (Some (CHR 0x22 # ''Bob Smith'' @ [CHR 0x22] @ '' <bob@x.com> (home)'')))) =
     ''bob@x.com'' \<and>
   senderName (mapBackendMessageToEmail ''now'' (wit_msg ''a'' (Some ''bob@x.com''))) = ''bob@x.com'' \<and>
   sender (mapBackendMessageToEmail ''now'' (wit_msg ''a'' (Some ''bob@x.com''))) = ''bob@x.com'' \<and>
   senderName (mapBackendMessageToEmail ''now'' (wit_msg ''a'' None)) = ''Unknown'' \<and>
   sender (mapBackendMessageToEmail ''now'' (wit_msg ''a'' None)) = ''unknown@example.com''"
proof -
  let ?name = "CHR 0x22 # ''Bob Smith'' @ [CHR 0x22] @ '' ''"
  let ?h = "CHR 0x22 # ''Bob Smith'' @ [CHR 0x22] @ '' <bob@x.com> (home)''"
  let ?m1 = "wit_msg ''a'' (Some ?h)"
  have "([] = [] \<or> is_line_terminator (last [])) \<and>
    \<not> (\<exists>p a q. [] = p @ ''<'' @ a @ ''>'' @ q \<and> no_terminator a) \<and>
    no_terminator ?name \<and> no_terminator ''bob@x.com'' \<and> CHR ''<'' \<notin> set ''bob@x.com'' \<and>
    CHR ''>'' \<notin> set (dot_run '' (home)'')"
    by (simp add: no_terminator_def is_line_terminator_def dot_run_def)
  with normalizer_sender [where pre = "[]" and n = ?name and d = "''bob@x.com''"
      and tail = "'' (home)''"]
  have "from_match ([] @ ?name @ ''<'' @ ''bob@x.com'' @ ''>'' @ '' (home)'') =
      Some (?name, ''bob@x.com'')"
    by blast
  then have "msg_from ?m1 = Some ?h \<and> ?h \<noteq> [] \<and> from_match ?h = Some (?name, ''bob@x.com'')"
    by (simp add: wit_msg_def)
  with normalizer_sender [where msg = ?m1 and s = ?h and name = ?name
      and addr = "''bob@x.com''" and now = "''now''"]
  have "senderName (mapBackendMessageToEmail ''now'' ?m1) = strip_quotes (trim ?name) \<and>
      sender (mapBackendMessageToEmail ''now'' ?m1) = trim ''bob@x.com''"
    by blast
  then have 1: "senderName (mapBackendMessageToEmail ''now'' ?m1) = ''Bob Smith'' \<and>
      sender (mapBackendMessageToEmail ''now'' ?m1) = ''bob@x.com''"
    by (simp add: strip_quotes_def trim_def is_js_space_def)
  let ?m2 = "wit_msg ''a'' (Some ''bob@x.com'')"
  have "\<not> (\<exists>p a q. ''bob@x.com'' = p @ ''<'' @ a @ ''>'' @ q \<and> no_terminator a)"
  proof
    assume "\<exists>p a q. ''bob@x.com'' = p @ ''<'' @ a @ ''>'' @ q \<and> no_terminator a"
    then obtain p a q where "''bob@x.com'' = p @ ''<'' @ a @ ''>'' @ q" by blast
    then have "CHR ''<'' \<in> set ''bob@x.com''" by (metis append_Cons in_set_conv_decomp)
    then show False by simp
  qed
  with normalizer_sender [where h = "''bob@x.com''"]
  have "from_match ''bob@x.com'' = None" by blast
  then have "msg_from ?m2 = Some ''bob@x.com'' \<and> ''bob@x.com'' \<noteq> [] \<and>
      from_match ''bob@x.com'' = None"
    by (simp add: wit_msg_def)
  with normalizer_sender [where msg = ?m2 and s = "''bob@x.com''" and now = "''now''"]
  have 2: "senderName (mapBackendMessageToEmail ''now'' ?m2) = ''bob@x.com'' \<and>
      sender (mapBackendMessageToEmail ''now'' ?m2) = ''bob@x.com''"
    by blast
  have "msg_from (wit_msg ''a'' None) = None" by (simp add: wit_msg_def)
  with normalizer_sender [where msg = "wit_msg ''a'' None" and now = "''now''"]
  have 3: "senderName (mapBackendMessageToEmail ''now'' (wit_msg ''a'' None)) = ''Unknown'' \<and>
      sender (mapBackendMessageToEmail ''now'' (wit_msg ''a'' None)) = ''unknown@example.com''"
    by blast
  from 1 2 3 show ?thesis by blast
qed

theorem batch_failure_modes_witness:
  "analyzeEmailBatch wit_nokey None (emailsToAnalyze wit_getTime wit_emails) =
     \<lparr> instance_after = None, requests_sent = [],
       outcome = Inl (new_Error config_message) \<rparr> \<and>
   emails (handleRunAI wit_getTime wit_nokey wit_state) = wit_emails \<and>
   outcome (analyzeEmailBatch wit_refused None wit_emails) = Inl (new_Error leaked_message)"
proof -
  have k: "API_KEY wit_nokey = None \<or> API_KEY wit_nokey = Some []"
    by (simp add: wit_nokey_def)
  note f = batch_failure_modes [where svc = wit_nokey and st = wit_state
      and es = "emailsToAnalyze wit_getTime wit_emails" and getTime = wit_getTime
      and e = "new_Error config_message"]
  from f k have 1: "analyzeEmailBatch wit_nokey None (emailsToAnalyze wit_getTime wit_emails) =
     \<lparr> instance_after = None, requests_sent = [],
       outcome = Inl (new_Error config_message) \<rparr>"
    by blast
  then have "outcome (analyzeEmailBatch wit_nokey (aiInstance wit_state)
      (emailsToAnalyze wit_getTime (emails wit_state))) = Inl (new_Error config_message)"
    by (simp add: wit_state_def)
  with f have "emails (handleRunAI wit_getTime wit_nokey wit_state) = emails wit_state"
    by blast
  then have 2: "emails (handleRunAI wit_getTime wit_nokey wit_state) = wit_emails"
    by (simp add: wit_state_def)
  have "getAI (API_KEY wit_refused) None = (Some (GoogleGenAI ''key''), Inr (GoogleGenAI ''key'')) \<and>
    generateContent wit_refused (GoogleGenAI ''key'') (analysis_prompt wit_emails) =
      Inl (Thrown False [] (Some \<lparr> code = Some 403, message = None \<rparr>))"
    by (simp add: wit_refused_def getAI_def)
  with batch_failure_modes [where svc = wit_refused and inst = None and es = wit_emails
      and inst' = "Some (GoogleGenAI ''key'')" and ai = "GoogleGenAI ''key''"
      and b = False and m = "[]" and err = "\<lparr> code = Some 403, message = None \<rparr>"]
  have "outcome (analyzeEmailBatch wit_refused None wit_emails) =
      (if code \<lparr> code = Some 403, message = None \<rparr> = Some 403 \<or>
          js_includes (message \<lparr> code = Some 403, message = None \<rparr>) ''leaked''
       then Inl (new_Error leaked_message)
       else if code \<lparr> code = Some 403, message = None \<rparr> = Some 401 \<or>
          js_includes (message \<lparr> code = Some 403, message = None \<rparr>) ''API key''
       then Inl (new_Error invalid_message)
       else (case message \<lparr> code = Some 403, message = None \<rparr> of
               None \<Rightarrow> Inl (Thrown False [] (Some \<lparr> code = Some 403, message = None \<rparr>))
             | Some t \<Rightarrow> if t = [] then Inl (Thrown False [] (Some \<lparr> code = Some 403, message = None \<rparr>))
                        else Inl (new_Error (''API Error: '' @ t))))"
    by blast
  then have 3: "outcome (analyzeEmailBatch wit_refused None wit_emails) = Inl (new_Error leaked_message)"
    by simp
  from 1 2 3 show ?thesis by blast
qed

theorem generateSmartReply_never_throws_witness:
  "outcome (generateSmartReply wit_nokey None (wit_emails ! 0)) =
     Inr ''Error generating reply. Please try again.'' \<and>
   (\<exists>e. outcome (analyzeEmailBatch wit_nokey None wit_emails) = Inl e) \<and>
   outcome (generateSmartReply wit_refused None (wit_emails ! 0)) =
     Inr ''Error generating reply. Please try again.'' \<and>
   (\<exists>e. outcome (analyzeEmailBatch wit_refused None wit_emails) = Inl e)"
proof -
  have k: "API_KEY wit_nokey = None \<or> API_KEY wit_nokey = Some []"
    by (simp add: wit_nokey_def)
  with generateSmartReply_never_throws [where svc = wit_nokey and email = "wit_emails ! 0"
      and es = wit_emails]
  have 1: "outcome (generateSmartReply wit_nokey None (wit_emails ! 0)) =
     Inr ''Error generating reply. Please try again.'' \<and>
     (\<exists>e. outcome (analyzeEmailBatch wit_nokey None wit_emails) = Inl e)"
    by blast
  let ?e = "Thrown False [] (Some \<lparr> code = Some 403, message = None \<rparr>)"
  have g: "getAI (API_KEY wit_refused) None = (Some (GoogleGenAI ''key''), Inr (GoogleGenAI ''key''))"
    by (simp add: wit_refused_def getAI_def)
  have "generateContent wit_refused (GoogleGenAI ''key'') (reply_prompt (wit_emails ! 0)) = Inl ?e"
    by (simp add: wit_refused_def)
  with g generateSmartReply_never_throws [where svc = wit_refused and email = "wit_emails ! 0"
      and inst = None and inst' = "Some (GoogleGenAI ''key'')" and ai = "GoogleGenAI ''key''"
      and e = ?e]
  have 2: "outcome (generateSmartReply wit_refused None (wit_emails ! 0)) =
     Inr ''Error generating reply. Please try again.''"
    by blast
  have "generateContent wit_refused (GoogleGenAI ''key'') (analysis_prompt wit_emails) = Inl ?e"
    by (simp add: wit_refused_def)
  with g generateSmartReply_never_throws [where svc = wit_refused and es = wit_emails
      and inst = None and inst' = "Some (GoogleGenAI ''key'')" and ai = "GoogleGenAI ''key''"
      and e = ?e]
  have 3: "\<exists>e. outcome (analyzeEmailBatch wit_refused None wit_emails) = Inl e"
    by blast
  from 1 2 3 show ?thesis by blast
qed


end
